theory Spec2Isabelle
  imports Main
begin

section \<open>Python values\<close>

text \<open>
  The metadata records of ZotLink are Python dictionaries with string keys whose values
  are strings, lists, nested dictionaries, byte strings, numbers or \<open>None\<close>. A dictionary
  is an association list in insertion order; looking a key up takes its first entry.

  A Python \<open>str\<close> is modelled as \<open>string\<close>, one \<open>char\<close> per code point, so the model
  covers the code points below 256. The character classes of \<open>re\<close> and \<open>str.lower\<close>
  are the ones Python gives to exactly these code points. The three literals of the
  source that lie outside this range (Chinese text) are written as their UTF-8 bytes.
\<close>

datatype pyval =
    PNone
  | PBool bool
  | PInt int
  | PStr string
  | PBytes string
  | PList "pyval list"
  | PDict "(string \<times> pyval) list"

type_synonym pydict = "(string \<times> pyval) list"

datatype pyerr = TypeError | KeyError string

text \<open>Truth value testing: \<open>if v\<close>, \<open>a and b\<close>, \<open>a or b\<close>.\<close>

fun truthy :: "pyval \<Rightarrow> bool" where
  "truthy PNone = False"
| "truthy (PBool b) = b"
| "truthy (PInt i) = (i \<noteq> 0)"
| "truthy (PStr s) = (s \<noteq> [])"
| "truthy (PBytes s) = (s \<noteq> [])"
| "truthy (PList xs) = (xs \<noteq> [])"
| "truthy (PDict d) = (d \<noteq> [])"

definition py_or :: "pyval \<Rightarrow> pyval \<Rightarrow> pyval" where
  "py_or a b = (if truthy a then a else b)"

text \<open>\<open>d.get(k)\<close> and \<open>d.get(k, default)\<close>.\<close>

definition get_default :: "pydict \<Rightarrow> string \<Rightarrow> pyval \<Rightarrow> pyval" where
  "get_default d k dflt = (case map_of d k of Some v \<Rightarrow> v | None \<Rightarrow> dflt)"

definition py_get :: "pydict \<Rightarrow> string \<Rightarrow> pyval" where
  "py_get d k = get_default d k PNone"

text \<open>\<open>d[k]\<close>: a missing key raises \<open>KeyError\<close>.\<close>

definition py_index :: "pydict \<Rightarrow> string \<Rightarrow> pyerr + pyval" where
  "py_index d k = (case map_of d k of None \<Rightarrow> Inl (KeyError k) | Some v \<Rightarrow> Inr v)"

text \<open>\<open>k in d\<close> for a dictionary \<open>d\<close>.\<close>

definition has_key :: "pydict \<Rightarrow> string \<Rightarrow> bool" where
  "has_key d k = (map_of d k \<noteq> None)"

text \<open>\<open>isinstance(v, list)\<close>.\<close>

fun is_list :: "pyval \<Rightarrow> bool" where
  "is_list (PList xs) = True"
| "is_list v = False"

text \<open>\<open>v[:n]\<close> on a value known to be a list.\<close>

fun list_items :: "pyval \<Rightarrow> pyval list" where
  "list_items (PList xs) = xs"
| "list_items v = []"

section \<open>Strings\<close>

text \<open>\<open>sub in s\<close> for two strings: \<open>sub\<close> occurs in \<open>s\<close> as a contiguous block.\<close>

fun str_in :: "string \<Rightarrow> string \<Rightarrow> bool" where
  "str_in sub [] = (sub = [])"
| "str_in sub (c # cs) = (take (length sub) (c # cs) = sub \<or> str_in sub cs)"

text \<open>
  \<open>needle in v\<close> for a string needle and any value: substring test on a string, element
  test on a list, key test on a dictionary, and a \<open>TypeError\<close> on everything else.
\<close>

fun py_in :: "string \<Rightarrow> pyval \<Rightarrow> pyerr + bool" where
  "py_in needle (PStr s) = Inr (str_in needle s)"
| "py_in needle (PList xs) = Inr (PStr needle \<in> set xs)"
| "py_in needle (PDict d) = Inr (has_key d needle)"
| "py_in needle v = Inl TypeError"

text \<open>\<open>str.zfill\<close>: pad with zeros on the left, after a leading sign.\<close>

definition zfill :: "nat \<Rightarrow> string \<Rightarrow> string" where
  "zfill w s =
     (if w \<le> length s then s
      else (case s of
              c # cs \<Rightarrow>
                if c = CHR ''+'' \<or> c = CHR ''-''
                then c # replicate (w - length s) CHR ''0'' @ cs
                else replicate (w - length s) CHR ''0'' @ s
            | [] \<Rightarrow> replicate w CHR ''0''))"

text \<open>Character classes of \<open>re\<close> on the code points below 256: \<open>\d\<close>, \<open>\s\<close>, \<open>\w\<close>.\<close>

definition re_d :: "char \<Rightarrow> bool" where
  "re_d c = (let n = (of_char c :: nat) in 48 \<le> n \<and> n \<le> 57)"

definition re_s :: "char \<Rightarrow> bool" where
  "re_s c = (let n = (of_char c :: nat) in
               (9 \<le> n \<and> n \<le> 13) \<or> (28 \<le> n \<and> n \<le> 32) \<or> n = 133 \<or> n = 160)"

definition re_w :: "char \<Rightarrow> bool" where
  "re_w c = (let n = (of_char c :: nat) in
               (48 \<le> n \<and> n \<le> 57) \<or> (65 \<le> n \<and> n \<le> 90) \<or> n = 95 \<or> (97 \<le> n \<and> n \<le> 122)
               \<or> n = 170 \<or> n = 178 \<or> n = 179 \<or> n = 181 \<or> n = 185 \<or> n = 186
               \<or> (188 \<le> n \<and> n \<le> 190) \<or> (192 \<le> n \<and> n \<le> 214)
               \<or> (216 \<le> n \<and> n \<le> 246) \<or> (248 \<le> n \<and> n \<le> 255))"

text \<open>\<open>str.lower\<close> on the code points below 256.\<close>

definition lower_char :: "char \<Rightarrow> char" where
  "lower_char c = (let n = (of_char c :: nat) in
                     if (65 \<le> n \<and> n \<le> 90) \<or> (192 \<le> n \<and> n \<le> 222 \<and> n \<noteq> 215)
                     then char_of (n + 32) else c)"

definition lower :: "string \<Rightarrow> string" where
  "lower s = map lower_char s"

section \<open>Regular expressions\<close>

text \<open>
  The patterns of the source use character classes, literals, greedy repetition of one
  class, capturing groups and the anchors \<open>^\<close> and \<open>$\<close>. \<open>rx_match n r s\<close> lists, in the
  order in which the backtracking matcher of \<open>re\<close> tries them, the ways \<open>r\<close> matches at
  the front of \<open>s\<close>: the captured groups and the text left over. \<open>n\<close> is the length of
  the whole subject, which \<open>^\<close> needs. \<open>$\<close> matches at the end and before a final line
  feed.
\<close>

datatype rx =
    Cls "char \<Rightarrow> bool"
  | Lit string
  | Seq rx rx
  | Rep nat nat "char \<Rightarrow> bool"
  | Plus "char \<Rightarrow> bool"
  | Grp rx
  | Bol
  | Eol

fun rx_match :: "nat \<Rightarrow> rx \<Rightarrow> string \<Rightarrow> (string list \<times> string) list" where
  "rx_match n (Cls p) s = (case s of [] \<Rightarrow> [] | c # cs \<Rightarrow> if p c then [([], cs)] else [])"
| "rx_match n (Lit l) s = (if take (length l) s = l then [([], drop (length l) s)] else [])"
| "rx_match n (Seq a b) s =
     concat (map (\<lambda>(g, r). map (\<lambda>(h, t). (g @ h, t)) (rx_match n b r)) (rx_match n a s))"
| "rx_match n (Rep lo hi p) s =
     map (\<lambda>k. ([], drop k s)) (rev [lo ..< Suc (min hi (length (takeWhile p s)))])"
| "rx_match n (Plus p) s =
     map (\<lambda>k. ([], drop k s)) (rev [1 ..< Suc (length (takeWhile p s))])"
| "rx_match n (Grp a) s =
     map (\<lambda>(g, r). (take (length s - length r) s # g, r)) (rx_match n a s)"
| "rx_match n Bol s = (if length s = n then [([], s)] else [])"
| "rx_match n Eol s = (if s = [] \<or> s = [CHR 0x0A] then [([], s)] else [])"

text \<open>
  \<open>re.search\<close>: the first position, from the left, at which the pattern matches, with the
  groups of the first way it matches there.
\<close>

fun rx_search :: "nat \<Rightarrow> rx \<Rightarrow> string \<Rightarrow> string list option" where
  "rx_search n r [] = (case rx_match n r [] of [] \<Rightarrow> None | m # ms \<Rightarrow> Some (fst m))"
| "rx_search n r (c # cs) =
     (case rx_match n r (c # cs) of [] \<Rightarrow> rx_search n r cs | m # ms \<Rightarrow> Some (fst m))"

definition re_search :: "rx \<Rightarrow> string \<Rightarrow> string list option" where
  "re_search r s = rx_search (length s) r s"

section \<open>The converter of \<open>debug_tools/trace_url.py\<close>\<close>

text \<open>The literal \<open>'\<close>unknown date\<open>'\<close> of the source, four Chinese characters.\<close>

definition unknown_date :: string where
  "unknown_date = [CHR 0xE6, CHR 0x9C, CHR 0xAA, CHR 0xE7, CHR 0x9F, CHR 0xA5,
                   CHR 0xE6, CHR 0x97, CHR 0xA5, CHR 0xE6, CHR 0x9C, CHR 0x9F]"

text \<open>\<open>(\d{1,2})\s+(\w+)\s+(\d{4})\<close>\<close>

definition rx_day_month_year :: rx where
  "rx_day_month_year =
     Seq (Grp (Rep 1 2 re_d)) (Seq (Plus re_s) (Seq (Grp (Plus re_w))
       (Seq (Plus re_s) (Grp (Rep 4 4 re_d)))))"

text \<open>\<open>(\d{4})[-/](\d{1,2})[-/](\d{1,2})\<close>\<close>

definition rx_iso_like :: rx where
  "rx_iso_like =
     Seq (Grp (Rep 4 4 re_d)) (Seq (Cls (\<lambda>c. c = CHR ''-'' \<or> c = CHR ''/''))
       (Seq (Grp (Rep 1 2 re_d)) (Seq (Cls (\<lambda>c. c = CHR ''-'' \<or> c = CHR ''/''))
         (Grp (Rep 1 2 re_d)))))"

text \<open>\<open>^\d{4}$\<close>\<close>

definition rx_bare_year :: rx where
  "rx_bare_year = Seq Bol (Seq (Rep 4 4 re_d) Eol)"

definition months :: "(string \<times> string) list" where
  "months = [(''Jan'', ''01''), (''Feb'', ''02''), (''Mar'', ''03''), (''Apr'', ''04''),
             (''May'', ''05''), (''Jun'', ''06''), (''Jul'', ''07''), (''Aug'', ''08''),
             (''Sep'', ''09''), (''Oct'', ''10''), (''Nov'', ''11''), (''Dec'', ''12'')]"

text \<open>\<open>months.get(month_name[:3], '01')\<close>\<close>

definition month_number :: "string \<Rightarrow> string" where
  "month_number month_name =
     (case map_of months (take 3 month_name) of Some m \<Rightarrow> m | None \<Rightarrow> ''01'')"

text \<open>The body of the \<open>try\<close> block, on a date that is a string.\<close>

definition parse_date :: "string \<Rightarrow> string" where
  "parse_date date =
     (case re_search rx_day_month_year date of
        Some g \<Rightarrow> (g ! 2) @ ''-'' @ month_number (g ! 1) @ ''-'' @ zfill 2 (g ! 0)
      | None \<Rightarrow>
          if re_search rx_iso_like date \<noteq> None then date
          else if re_search rx_bare_year date \<noteq> None then date @ ''-01-01''
          else date)"

text \<open>
  The date block. \<open>re.search\<close> raises a \<open>TypeError\<close> on a value that is not a string;
  the bare \<open>except\<close> swallows it and the date stays as it is.
\<close>

definition normalize_date :: "pyval \<Rightarrow> pyval" where
  "normalize_date date =
     (if truthy date \<and> date \<noteq> PStr unknown_date
      then (case date of PStr s \<Rightarrow> PStr (parse_date s) | _ \<Rightarrow> date)
      else date)"

text \<open>
  A date written as a day, a word and a year: one or two digits, white space, a word,
  white space and four digits.
\<close>

definition day_month_year :: "string \<Rightarrow> string \<Rightarrow> string \<Rightarrow> string \<Rightarrow> string \<Rightarrow> bool" where
  "day_month_year d w1 m w2 y =
     (d \<noteq> [] \<and> length d \<le> 2 \<and> list_all re_d d \<and> w1 \<noteq> [] \<and> list_all re_s w1
      \<and> m \<noteq> [] \<and> list_all re_w m \<and> w2 \<noteq> [] \<and> list_all re_s w2
      \<and> length y = 4 \<and> list_all re_d y)"

text \<open>A date in which a day, a word and a year occur somewhere.\<close>

definition contains_day_month_year :: "string \<Rightarrow> bool" where
  "contains_day_month_year date =
     (\<exists>pre d w1 m w2 y rest. date = pre @ d @ w1 @ m @ w2 @ y @ rest \<and> day_month_year d w1 m w2 y)"

text \<open>A bare year: four digits and nothing else.\<close>

definition bare_year :: "string \<Rightarrow> bool" where
  "bare_year s = (length s = 4 \<and> list_all re_d s)"

text \<open>
  A date written as a year, a month and a day with \<open>-\<close> or \<open>/\<close> between them, which
  includes the canonical \<open>YYYY-MM-DD\<close>.
\<close>

definition iso_like :: "string \<Rightarrow> char \<Rightarrow> string \<Rightarrow> char \<Rightarrow> string \<Rightarrow> bool" where
  "iso_like y a mo b d =
     (length y = 4 \<and> list_all re_d y \<and> (a = CHR ''-'' \<or> a = CHR ''/'')
      \<and> mo \<noteq> [] \<and> length mo \<le> 2 \<and> list_all re_d mo \<and> (b = CHR ''-'' \<or> b = CHR ''/'')
      \<and> d \<noteq> [] \<and> length d \<le> 2 \<and> list_all re_d d)"

text \<open>
  The creators block: \<open>Some\<close> of the creator list the function goes on with, or \<open>None\<close>
  where it hands the whole record to the original converter.
\<close>

definition build_authors :: "pydict \<Rightarrow> pyval list option" where
  "build_authors paper_info =
     (if truthy (py_get paper_info ''creators'') \<and> is_list (py_get paper_info ''creators'')
      then Some (take 15 (list_items (py_get paper_info ''creators'')))
      else if truthy (py_get paper_info ''authors'') then None
      else Some [])"

text \<open>The item type: the hint of the record, overridden for an arXiv URL.\<close>

definition item_type :: "pydict \<Rightarrow> pyerr + pyval" where
  "item_type paper_info =
     (case py_in ''arxiv.org'' (get_default paper_info ''url'' (PStr '''')) of
        Inl e \<Rightarrow> Inl e
      | Inr b \<Rightarrow> Inr (if b then PStr ''preprint''
                       else get_default paper_info ''itemType'' (PStr ''journalArticle'')))"

text \<open>The optional fields, added only when present and not empty.\<close>

definition optional_field :: "pydict \<Rightarrow> string \<Rightarrow> pydict" where
  "optional_field paper_info k =
     (if truthy (py_get paper_info k) then [(k, py_get paper_info k)] else [])"

text \<open>
  The item that is built and then stripped of its empty values. \<open>today\<close> is
  \<open>time.strftime('%Y-%m-%d')\<close>.
\<close>

definition zotero_item :: "pyval \<Rightarrow> pyval list \<Rightarrow> string \<Rightarrow> pydict \<Rightarrow> pydict" where
  "zotero_item ty authors today paper_info =
     filter (\<lambda>(k, v). truthy v)
       ([(''itemType'', ty),
         (''title'', get_default paper_info ''title'' (PStr '''')),
         (''creators'', PList authors),
         (''abstractNote'', py_or (py_get paper_info ''abstractNote'')
                                  (get_default paper_info ''abstract'' (PStr ''''))),
         (''url'', get_default paper_info ''url'' (PStr '''')),
         (''date'', normalize_date (get_default paper_info ''date'' (PStr '''')))]
        @ optional_field paper_info ''DOI''
        @ optional_field paper_info ''repository''
        @ optional_field paper_info ''libraryCatalog''
        @ [(''accessDate'', PStr today)])"

text \<open>
  \<open>patched_convert_to_zotero_format\<close>. \<open>original_convert\<close> is the converter of
  \<open>ZoteroConnector\<close> that the patch wraps and calls for a record with an authors string.
\<close>

definition patched_convert_to_zotero_format ::
  "(pydict \<Rightarrow> pyerr + pydict) \<Rightarrow> string \<Rightarrow> pydict \<Rightarrow> pyerr + pydict" where
  "patched_convert_to_zotero_format original_convert today paper_info =
     (case build_authors paper_info of
        None \<Rightarrow> original_convert paper_info
      | Some authors \<Rightarrow>
          (case item_type paper_info of
             Inl e \<Rightarrow> Inl e
           | Inr ty \<Rightarrow> Inr (zotero_item ty authors today paper_info)))"

section \<open>The processing steps of \<open>trace_url_processing\<close>\<close>

text \<open>
  What \<open>trace_url_processing\<close> does with the metadata that step 1 extracted: it stops
  when the extraction failed, builds \<open>paper_info\<close>, enhances it for an arXiv URL,
  converts it and prints a summary of the creators. The function itself returns nothing;
  the result of the model is \<open>None\<close> where the function returns before the conversion,
  the converted item where it runs to its end, and the exception where a step raises.
  The two display steps print a slice of the authors and the length and a slice of the
  creators, which raises on a value that is not a sequence. \<open>enhance\<close> is
  \<open>ZoteroConnector._enhance_paper_info_for_arxiv\<close>.
\<close>

definition extraction_failed :: "pydict \<Rightarrow> bool" where
  "extraction_failed metadata = (\<not> truthy (PDict metadata) \<or> has_key metadata ''error'')"

definition copy_field :: "pydict \<Rightarrow> string \<Rightarrow> pydict" where
  "copy_field metadata k = (if has_key metadata k then [(k, py_get metadata k)] else [])"

text \<open>Step 2: the initial \<open>paper_info\<close>.\<close>

definition initial_paper_info :: "string \<Rightarrow> pydict \<Rightarrow> pydict" where
  "initial_paper_info url metadata =
     [(''title'', get_default metadata ''title'' (PStr ''Unknown'')), (''url'', PStr url)]
     @ copy_field metadata ''authors'' @ copy_field metadata ''creators''"

fun sliceable :: "pyval \<Rightarrow> bool" where
  "sliceable (PStr s) = True"
| "sliceable (PBytes s) = True"
| "sliceable (PList xs) = True"
| "sliceable v = False"

definition displayable :: "pydict \<Rightarrow> string \<Rightarrow> bool" where
  "displayable paper_info k = (if has_key paper_info k then sliceable (py_get paper_info k) else True)"

text \<open>
  The summary after the conversion: \<open>len(creators)\<close>, then for every creator a line with
  \<open>creator['firstName']\<close> and \<open>creator['lastName']\<close>. \<open>iter_items\<close> gives what
  iterating over a value yields, and raises \<open>TypeError\<close> where the value has no length.
\<close>

fun iter_items :: "pyval \<Rightarrow> pyerr + pyval list" where
  "iter_items (PList xs) = Inr xs"
| "iter_items (PStr s) = Inr (map (\<lambda>c. PStr [c]) s)"
| "iter_items (PBytes s) = Inr (map (\<lambda>c. PInt (of_char c)) s)"
| "iter_items (PDict d) = Inr (map PStr (remdups (map fst d)))"
| "iter_items v = Inl TypeError"

fun creator_line :: "pyval \<Rightarrow> pyerr + unit" where
  "creator_line (PDict d) =
     (case py_index d ''firstName'' of
        Inl e \<Rightarrow> Inl e
      | Inr first_name \<Rightarrow>
          (case py_index d ''lastName'' of Inl e \<Rightarrow> Inl e | Inr last_name \<Rightarrow> Inr ()))"
| "creator_line v = Inl TypeError"

fun creator_lines :: "pyval list \<Rightarrow> pyerr + unit" where
  "creator_lines [] = Inr ()"
| "creator_lines (creator # creators) =
     (case creator_line creator of Inl e \<Rightarrow> Inl e | Inr u \<Rightarrow> creator_lines creators)"

definition print_summary :: "pydict \<Rightarrow> pyerr + unit" where
  "print_summary item =
     (case iter_items (get_default item ''creators'' (PList [])) of
        Inl e \<Rightarrow> Inl e
      | Inr creators \<Rightarrow> creator_lines creators)"

definition trace_url_processing ::
  "(pydict \<Rightarrow> pyerr + pydict) \<Rightarrow> (pydict \<Rightarrow> pyerr + pydict) \<Rightarrow> string \<Rightarrow> string \<Rightarrow> pydict
     \<Rightarrow> pyerr + pydict option" where
  "trace_url_processing enhance original_convert today url metadata =
     (if extraction_failed metadata then Inr None
      else
        let paper_info = initial_paper_info url metadata
        in if \<not> displayable paper_info ''creators'' then Inl TypeError
           else
             (case (if str_in ''arxiv.org'' url then enhance paper_info else Inr paper_info) of
                Inl e \<Rightarrow> Inl e
              | Inr enhanced_info \<Rightarrow>
                  if \<not> displayable enhanced_info ''authors''
                     \<or> \<not> displayable enhanced_info ''creators''
                  then Inl TypeError
                  else
                    (case patched_convert_to_zotero_format original_convert today enhanced_info of
                       Inl e \<Rightarrow> Inl e
                     | Inr item \<Rightarrow>
                         (case print_summary item of
                            Inl e \<Rightarrow> Inl e
                          | Inr u \<Rightarrow> Inr (Some item)))))"

section \<open>The record of the legacy downloader\<close>



section \<open>The title shown by the server\<close>




section \<open>\<open>BioRxivDirectExtractor\<close>\<close>

definition can_handle :: "string \<Rightarrow> bool" where
  "can_handle url = str_in ''biorxiv.org'' (lower url)"

text \<open>\<open>10\.1101/(\d{4})\.(\d{2})\.(\d{2})\.(\d+)\<close>\<close>

definition rx_doi :: rx where
  "rx_doi =
     Seq (Lit ''10.1101/'') (Seq (Grp (Rep 4 4 re_d)) (Seq (Lit ''.'') (Seq (Grp (Rep 2 2 re_d))
       (Seq (Lit ''.'') (Seq (Grp (Rep 2 2 re_d)) (Seq (Lit ''.'') (Grp (Plus re_d))))))))"

text \<open>The message of the error record: \<open>cannot extract the DOI from the URL\<close>.\<close>

definition no_doi_message :: string where
  "no_doi_message = [CHR 0xE6, CHR 0x97, CHR 0xA0, CHR 0xE6, CHR 0xB3, CHR 0x95,
                     CHR 0xE4, CHR 0xBB, CHR 0x8E] @ ''URL''
                    @ [CHR 0xE6, CHR 0x8F, CHR 0x90, CHR 0xE5, CHR 0x8F, CHR 0x96] @ ''DOI''"

definition full_metadata :: "string \<Rightarrow> string \<Rightarrow> string \<Rightarrow> string \<Rightarrow> string \<Rightarrow> pydict" where
  "full_metadata url year month day version =
     (let doi = ''10.1101/'' @ year @ ''.'' @ month @ ''.'' @ day @ ''.'' @ version;
          paper_id = year @ ''.'' @ month @ ''.'' @ day @ ''.'' @ version
      in [(''itemType'', PStr ''preprint''),
          (''title'', PStr (''bioRxiv preprint '' @ paper_id)),
          (''creators'', PList [PDict [(''creatorType'', PStr ''author''),
                                       (''firstName'', PStr ''Unknown''),
                                       (''lastName'', PStr ''Author'')]]),
          (''abstractNote'', PStr ''bioRxiv preprint - PDF auto-downloaded''),
          (''url'', PStr url),
          (''DOI'', PStr doi),
          (''repository'', PStr ''bioRxiv''),
          (''archiveID'', PStr paper_id),
          (''date'', PStr (year @ ''-'' @ month @ ''-'' @ day)),
          (''libraryCatalog'', PStr ''bioRxiv''),
          (''pdf_url'', PStr (''https://www.biorxiv.org/content/10.1101/'' @ paper_id @ ''.full.pdf'')),
          (''extractor'', PStr ''BioRxiv-Direct'')])"

definition extract_from_url :: "string \<Rightarrow> pydict" where
  "extract_from_url url =
     (case re_search rx_doi url of
        None \<Rightarrow> [(''error'', PStr no_doi_message)]
      | Some g \<Rightarrow> full_metadata url (g ! 0) (g ! 1) (g ! 2) (g ! 3))"

text \<open>
  \<open>extract_metadata\<close>. \<open>download_pdf_content\<close> is the browser download, which gives the
  bytes of the PDF or \<open>None\<close> and catches its own exceptions.
\<close>

definition extract_metadata :: "(pyval \<Rightarrow> string option) \<Rightarrow> string \<Rightarrow> pyerr + pydict" where
  "extract_metadata download_pdf_content url =
     (if \<not> can_handle url then Inr []
      else
        let basic_info = extract_from_url url
        in case py_index basic_info ''pdf_url'' of
             Inl e \<Rightarrow> Inl e
           | Inr pdf_url \<Rightarrow>
               (case download_pdf_content pdf_url of
                  None \<Rightarrow> Inr basic_info
                | Some pdf_content \<Rightarrow>
                    if pdf_content \<noteq> []
                    then Inr (basic_info @ [(''pdf_content'', PBytes pdf_content),
                                            (''pdf_size'', PInt (int (length pdf_content)))])
                    else Inr basic_info))"

section \<open>The Creator List Builder\<close>

text \<open>
  Modelled from the spec: the Creator List Builder of section 4.3. The function that
  parses an authors string, \<open>ZoteroConnector._convert_to_zotero_format\<close> of
  \<open>zotlink/zotero_integration.py\<close>, is not under \<open>src/\<close>; only its callers are.
\<close>

text \<open>
  Modelled from the spec: splitting a sequence at every element that is a separator
  (section 4.3, \<open>split on ;\<close>, \<open>split on ,\<close>); a trailing separator leaves an empty
  last piece.
\<close>

fun split_where :: "('a \<Rightarrow> bool) \<Rightarrow> 'a list \<Rightarrow> 'a list list" where
  "split_where P [] = [[]]"
| "split_where P (x # xs) =
     (if P x then [] # split_where P xs
      else (case split_where P xs of [] \<Rightarrow> [[x]] | g # gs \<Rightarrow> (x # g) # gs))"

text \<open>
  Modelled from the spec: \<open>trim whitespace; split into words\<close> (section 4.3). The words
  of a text are its maximal runs of characters that are not white space.
\<close>

fun words_from :: "string \<Rightarrow> string \<Rightarrow> string list" where
  "words_from cur [] = (if cur = [] then [] else [cur])"
| "words_from cur (c # cs) =
     (if re_s c then (if cur = [] then words_from [] cs else cur # words_from [] cs)
      else words_from (cur @ [c]) cs)"

definition split_words :: "string \<Rightarrow> string list" where
  "split_words s = words_from [] s"

text \<open>Modelled from the spec: \<open>joined by spaces\<close> (section 4.3), for any separator.\<close>

fun join_with :: "'a list \<Rightarrow> 'a list list \<Rightarrow> 'a list" where
  "join_with sep [] = []"
| "join_with sep [x] = x"
| "join_with sep (x # y # ys) = x @ sep @ join_with sep (y # ys)"

text \<open>
  Modelled from the spec: a \<open>CreatorRef\<close> of section 3, whose \<open>creatorType\<close> is always
  the literal \<open>author\<close>.
\<close>

definition creator_ref :: "string \<Rightarrow> string \<Rightarrow> pyval" where
  "creator_ref first_name last_name =
     PDict [(''creatorType'', PStr ''author''), (''firstName'', PStr first_name),
            (''lastName'', PStr last_name)]"

text \<open>
  Modelled from the spec: the name of one token (section 4.3). One word is the last name
  with an empty first name; of two or more words the last one is the last name and the
  words before it, joined by spaces, are the first name.
\<close>

definition name_creator :: "string list \<Rightarrow> pyval" where
  "name_creator ws =
     (if length ws = 1 then creator_ref '''' (hd ws)
      else creator_ref (join_with '' '' (butlast ws)) (last ws))"

text \<open>
  Modelled from the spec: the name tokens of an authors string (section 4.3). With a
  \<open>;\<close> in the string the names are the pieces between semicolons; otherwise they are
  the pieces between commas, cut again at every word \<open>and\<close> and \<open>&\<close>.
\<close>

definition name_tokens :: "string \<Rightarrow> string list list" where
  "name_tokens authors =
     (if CHR '';'' \<in> set authors
      then map split_words (split_where (\<lambda>c. c = CHR '';'') authors)
      else concat (map (\<lambda>piece. split_where (\<lambda>w. w = ''and'' \<or> w = ''&'') (split_words piece))
                       (split_where (\<lambda>c. c = CHR '','') authors)))"

text \<open>
  Modelled from the spec: Branch B of section 4.3. Empty tokens are discarded and at most
  15 names are kept.
\<close>

definition parse_authors :: "string \<Rightarrow> pyval list" where
  "parse_authors authors =
     take 15 (map name_creator (filter (\<lambda>ws. ws \<noteq> []) (name_tokens authors)))"

text \<open>Modelled from the spec: \<open>raw.authors is a non-empty string\<close> (section 4.3).\<close>

fun is_text :: "pyval \<Rightarrow> bool" where
  "is_text (PStr s) = True"
| "is_text v = False"

fun text_of :: "pyval \<Rightarrow> string" where
  "text_of (PStr s) = s"
| "text_of v = []"

text \<open>
  Modelled from the spec: \<open>build_creators\<close> of section 4.3, with its three branches.
\<close>

definition build_creators :: "pydict \<Rightarrow> pyval list" where
  "build_creators raw =
     (if truthy (py_get raw ''creators'') \<and> is_list (py_get raw ''creators'')
      then take 15 (list_items (py_get raw ''creators''))
      else if truthy (py_get raw ''authors'') \<and> is_text (py_get raw ''authors'')
      then parse_authors (text_of (py_get raw ''authors''))
      else [])"

text \<open>
  Names as they are written in an authors string: a word of a name has no white space,
  comma or semicolon in it and is not \<open>and\<close> or \<open>&\<close>; a person is one word or more; a
  group is one person or more, written with \<open>and\<close> or \<open>&\<close> between them.
\<close>

definition name_word :: "string \<Rightarrow> bool" where
  "name_word w = (w \<noteq> [] \<and> list_all (\<lambda>c. \<not> re_s c \<and> c \<noteq> CHR '','' \<and> c \<noteq> CHR '';'') w
                  \<and> w \<noteq> ''and'' \<and> w \<noteq> ''&'')"

definition person :: "string list \<Rightarrow> bool" where
  "person ws = (ws \<noteq> [] \<and> list_all name_word ws)"

text \<open>
  Names as they are written in a list with semicolons: a word has no white space and no
  semicolon in it, and may hold a comma or be \<open>and\<close> or \<open>&\<close>.
\<close>

definition semicolon_word :: "string \<Rightarrow> bool" where
  "semicolon_word w = (w \<noteq> [] \<and> list_all (\<lambda>c. \<not> re_s c \<and> c \<noteq> CHR '';'') w)"

definition semicolon_person :: "string list \<Rightarrow> bool" where
  "semicolon_person ws = (ws \<noteq> [] \<and> list_all semicolon_word ws)"

definition plain_word :: "string \<Rightarrow> bool" where
  "plain_word w = (w \<noteq> [] \<and> (\<forall>c\<in>set w. \<not> re_s c))"

definition name_group :: "string list list \<Rightarrow> bool" where
  "name_group g = (g \<noteq> [] \<and> list_all person g)"

definition render_group :: "string \<Rightarrow> string list list \<Rightarrow> string" where
  "render_group cw g = join_with ('' '' @ cw @ '' '') (map (join_with '' '') g)"

section \<open>The Metadata Normalizer\<close>

text \<open>
  Modelled from the spec: \<open>normalize\<close> of section 4.2, which stands for
  \<open>ZoteroConnector._convert_to_zotero_format\<close> of \<open>zotlink/zotero_integration.py\<close>, the
  converter that \<open>patched_convert_to_zotero_format\<close> calls for a record with an authors
  string. It is not under \<open>src/\<close>.
\<close>




section \<open>Properties of the converter\<close>

lemma get_default_other:
  "k' \<noteq> k \<Longrightarrow> get_default ((k', a) # d) k dflt = get_default d k dflt"
  by (simp add: get_default_def)

lemma py_get_other: "k' \<noteq> k \<Longrightarrow> py_get ((k', a) # d) k = py_get d k"
  by (simp add: py_get_def get_default_other)

lemma optional_field_other:
  "k' \<noteq> k \<Longrightarrow> optional_field ((k', a) # d) k = optional_field d k"
  by (simp add: optional_field_def py_get_other)

lemma item_type_authors: "item_type ((''authors'', a) # d) = item_type d"
  by (simp add: item_type_def get_default_other cong: sum.case_cong if_cong)

lemma zotero_item_authors:
  "zotero_item ty authors today ((''authors'', a) # d) = zotero_item ty authors today d"
  unfolding zotero_item_def
  by (simp only: get_default_other py_get_other optional_field_other list.inject char.inject
        simp_thms not_False_eq_True)

lemma map_of_filter_Cons:
  "map_of (filter Q ((k', v) # xs)) k =
     (if k' = k \<and> Q (k', v) then Some v else map_of (filter Q xs) k)"
  by simp



lemma zotero_item_creators:
  "authors \<noteq> [] \<Longrightarrow> map_of (zotero_item ty authors today d) ''creators'' = Some (PList authors)"
  unfolding zotero_item_def
  by (simp add: map_of_filter_Cons del: filter.simps)




text \<open>
  C1. When the \<open>creators\<close> field of the record is a non-empty list, the creators that the
  converter goes on with are that list cut to its first 15 entries, in the same order
  and unchanged; the item it returns carries exactly them; and an \<open>authors\<close> entry of
  the record has no influence on the result, nor has the original converter, which is
  never called.
\<close>

theorem creators_used_directly:
  assumes "py_get paper_info ''creators'' = PList cs" and "cs \<noteq> []"
  shows "build_authors paper_info = Some (take 15 cs)
       \<and> (case item_type paper_info of
            Inl e \<Rightarrow> patched_convert_to_zotero_format original_convert today paper_info = Inl e
          | Inr ty \<Rightarrow> (\<exists>r. patched_convert_to_zotero_format original_convert today paper_info = Inr r
                         \<and> map_of r ''creators'' = Some (PList (take 15 cs))))
       \<and> patched_convert_to_zotero_format original_convert today ((''authors'', a) # paper_info)
           = patched_convert_to_zotero_format other_convert today paper_info"
proof -
  have b: "build_authors paper_info = Some (take 15 cs)"
    using assms by (simp add: build_authors_def)
  have b': "build_authors ((''authors'', a) # paper_info) = Some (take 15 cs)"
    using assms by (simp add: build_authors_def py_get_other)
  have c: "case item_type paper_info of
            Inl e \<Rightarrow> patched_convert_to_zotero_format original_convert today paper_info = Inl e
          | Inr ty \<Rightarrow> (\<exists>r. patched_convert_to_zotero_format original_convert today paper_info = Inr r
                         \<and> map_of r ''creators'' = Some (PList (take 15 cs)))"
    using assms(2)
    by (simp add: patched_convert_to_zotero_format_def b zotero_item_creators split: sum.splits)
  have d: "patched_convert_to_zotero_format original_convert today ((''authors'', a) # paper_info)
           = patched_convert_to_zotero_format other_convert today paper_info"
    by (simp add: patched_convert_to_zotero_format_def b b' item_type_authors zotero_item_authors
          cong: sum.case_cong)
  from b c d show ?thesis by simp
qed

theorem creators_used_directly_witness:
  "build_authors [(''creators'', PList (map PInt [1, 2, 3, 4, 5, 6, 7, 8, 9, 10, 11, 12, 13, 14, 15, 16])),
                  (''authors'', PStr ''Jane Doe''), (''url'', PStr ''https://example.org/p'')]
     = Some (map PInt [1, 2, 3, 4, 5, 6, 7, 8, 9, 10, 11, 12, 13, 14, 15])
   \<and> patched_convert_to_zotero_format Inr ''2026-01-01''
        [(''creators'', PList (map PInt [1, 2, 3, 4, 5, 6, 7, 8, 9, 10, 11, 12, 13, 14, 15, 16])),
         (''authors'', PStr ''Jane Doe''), (''url'', PStr ''https://example.org/p'')]
     = Inr [(''itemType'', PStr ''journalArticle''),
            (''creators'', PList (map PInt [1, 2, 3, 4, 5, 6, 7, 8, 9, 10, 11, 12, 13, 14, 15])),
            (''url'', PStr ''https://example.org/p''),
            (''accessDate'', PStr ''2026-01-01'')]"
  using creators_used_directly
          [of "[(''creators'', PList (map PInt [1, 2, 3, 4, 5, 6, 7, 8, 9, 10, 11, 12, 13, 14, 15, 16])),
                (''authors'', PStr ''Jane Doe''), (''url'', PStr ''https://example.org/p'')]"
              "map PInt [1, 2, 3, 4, 5, 6, 7, 8, 9, 10, 11, 12, 13, 14, 15, 16]"
              Inr "''2026-01-01''"]
  by (simp add: py_get_def get_default_def patched_convert_to_zotero_format_def item_type_def
        zotero_item_def normalize_date_def optional_field_def py_or_def)








text \<open>
  The converter does not look at an \<open>error\<close> entry: for a record that holds nothing but
  \<open>error = 'timeout'\<close> it returns an item with an item type and an access date, and
  without the error.
\<close>

theorem error_result_fabricated_counterexample:
  "patched_convert_to_zotero_format Inr ''2026-11-04'' [(''error'', PStr ''timeout'')]
     = Inr [(''itemType'', PStr ''journalArticle''), (''accessDate'', PStr ''2026-11-04'')]"
  by (simp add: py_get_def get_default_def patched_convert_to_zotero_format_def item_type_def
        build_authors_def zotero_item_def normalize_date_def optional_field_def py_or_def)

text \<open>
  C4, as the code has it. An extraction result that carries an \<open>error\<close> entry never
  reaches the converter: \<open>trace_url_processing\<close> returns right after the extraction and
  no item is built.
\<close>

theorem error_result_never_converted:
  assumes "has_key metadata ''error''"
  shows "trace_url_processing enhance original_convert today url metadata = Inr None"
  using assms by (simp add: trace_url_processing_def extraction_failed_def)

theorem error_result_never_converted_witness:
  "has_key [(''error'', PStr ''timeout'')] ''error''
   \<and> trace_url_processing Inr Inr ''2026-11-04'' ''https://example.org/p''
        [(''error'', PStr ''timeout'')] = Inr None"
  using error_result_never_converted
          [of "[(''error'', PStr ''timeout'')]" Inr Inr "''2026-11-04''" "''https://example.org/p''"]
  by (simp add: has_key_def)






text \<open>
  The results of \<open>extract_metadata\<close>: the empty record for a URL that is not a bioRxiv
  URL, a \<open>KeyError\<close> for a bioRxiv URL without a DOI, and otherwise the full record,
  built from the four parts of the DOI, with the PDF and its size when the download gave
  one.
\<close>

lemma py_index_error: "py_index [(''error'', v)] ''pdf_url'' = Inl (KeyError ''pdf_url'')"
  by (simp add: py_index_def)

lemma py_index_full:
  "py_index (full_metadata url year month day version) ''pdf_url''
     = Inr (PStr (''https://www.biorxiv.org/content/10.1101/''
                  @ year @ ''.'' @ month @ ''.'' @ day @ ''.'' @ version @ ''.full.pdf''))"
  by (simp add: py_index_def full_metadata_def Let_def)

lemma extract_metadata_shapes:
  "(\<not> can_handle url \<longrightarrow> extract_metadata download_pdf_content url = Inr [])
   \<and> (can_handle url \<and> re_search rx_doi url = None \<longrightarrow>
        extract_metadata download_pdf_content url = Inl (KeyError ''pdf_url''))
   \<and> (can_handle url \<and> re_search rx_doi url = Some g \<longrightarrow>
        (\<exists>extra. extract_metadata download_pdf_content url
                    = Inr (full_metadata url (g ! 0) (g ! 1) (g ! 2) (g ! 3) @ extra)
                 \<and> (extra = [] \<or> (\<exists>b. b \<noteq> [] \<and> extra = [(''pdf_content'', PBytes b),
                                                       (''pdf_size'', PInt (int (length b)))]))))"
proof (intro conjI impI)
  assume "\<not> can_handle url"
  then show "extract_metadata download_pdf_content url = Inr []"
    by (simp add: extract_metadata_def)
next
  assume "can_handle url \<and> re_search rx_doi url = None"
  then show "extract_metadata download_pdf_content url = Inl (KeyError ''pdf_url'')"
    by (simp add: extract_metadata_def extract_from_url_def py_index_error)
next
  assume a: "can_handle url \<and> re_search rx_doi url = Some g"
  let ?info = "full_metadata url (g ! 0) (g ! 1) (g ! 2) (g ! 3)"
  obtain u where u: "py_index ?info ''pdf_url'' = Inr u"
    using py_index_full by blast
  show "\<exists>extra. extract_metadata download_pdf_content url = Inr (?info @ extra)
                 \<and> (extra = [] \<or> (\<exists>b. b \<noteq> [] \<and> extra = [(''pdf_content'', PBytes b),
                                                       (''pdf_size'', PInt (int (length b)))]))"
  proof (cases "download_pdf_content u")
    case None
    with a u have "extract_metadata download_pdf_content url = Inr (?info @ [])"
      by (simp add: extract_metadata_def extract_from_url_def)
    then show ?thesis by blast
  next
    case (Some b)
    show ?thesis
    proof (cases "b = []")
      case True
      with a u Some have "extract_metadata download_pdf_content url = Inr (?info @ [])"
        by (simp add: extract_metadata_def extract_from_url_def)
      then show ?thesis by blast
    next
      case False
      with a u Some have "extract_metadata download_pdf_content url
          = Inr (?info @ [(''pdf_content'', PBytes b), (''pdf_size'', PInt (int (length b)))])"
        by (simp add: extract_metadata_def extract_from_url_def)
      with False show ?thesis by blast
    qed
  qed
qed

text \<open>
  C10. For a bioRxiv URL without a DOI, \<open>_extract_from_url\<close> returns the error record,
  and \<open>extract_metadata\<close> then reads its \<open>pdf_url\<close>, which raises \<open>KeyError\<close>.
\<close>

theorem extract_metadata_raises_without_doi:
  "extract_metadata download_pdf_content ''https://www.biorxiv.org/'' = Inl (KeyError ''pdf_url'')"
  by code_simp

section \<open>What the matcher finds\<close>

lemma takeWhile_block:
  assumes "\<forall>c\<in>set xs. P c" and "ys = [] \<or> \<not> P (hd ys)"
  shows "takeWhile P (xs @ ys) = xs"
proof -
  have "takeWhile P ys = []" using assms(2) by (cases ys) auto
  with assms(1) show ?thesis by (simp add: takeWhile_append2)
qed

lemma rev_upt_Suc: "lo \<le> k \<Longrightarrow> rev [lo ..< Suc k] = k # rev [lo ..< k]"
  by simp

lemma rx_match_Plus_first:
  assumes "xs \<noteq> []" and "\<forall>c\<in>set xs. P c" and "ys = [] \<or> \<not> P (hd ys)"
  shows "\<exists>ms. rx_match n (Plus P) (xs @ ys) = ([], ys) # ms"
proof -
  have "1 \<le> length xs" using assms(1) by (cases xs) auto
  then show ?thesis
    using takeWhile_block [OF assms(2,3)] by (simp del: upt_Suc add: rev_upt_Suc)
qed

lemma rx_match_Rep_first:
  assumes "lo \<le> length xs" and "length xs \<le> hi" and "\<forall>c\<in>set xs. P c"
    and "length xs = hi \<or> ys = [] \<or> \<not> P (hd ys)"
  shows "\<exists>ms. rx_match n (Rep lo hi P) (xs @ ys) = ([], ys) # ms"
proof -
  have "min hi (length (takeWhile P (xs @ ys))) = length xs"
  proof (cases "length xs = hi")
    case True
    have "length (takeWhile P (xs @ ys)) = length xs + length (takeWhile P ys)"
      using assms(3) by (simp add: takeWhile_append2)
    with True show ?thesis by simp
  next
    case False
    with assms(4) have "takeWhile P (xs @ ys) = xs"
      using takeWhile_block [OF assms(3)] by blast
    with assms(2) show ?thesis by simp
  qed
  with assms(1) show ?thesis
    by (simp del: upt_Suc add: rev_upt_Suc)
qed

lemma rx_match_Seq_first:
  assumes "rx_match n a s = (g, r) # ms" and "rx_match n b r = (h, t) # ms'"
  shows "\<exists>ms''. rx_match n (Seq a b) s = (g @ h, t) # ms''"
  using assms by simp

lemma rx_match_Grp_first:
  assumes "rx_match n a (xs @ r) = (g, r) # ms"
  shows "\<exists>ms'. rx_match n (Grp a) (xs @ r) = (xs # g, r) # ms'"
  using assms by simp

lemma rx_search_first:
  assumes "rx_match n r s = m # ms"
  shows "rx_search n r s = Some (fst m)"
  using assms by (cases s) simp_all

lemma rx_search_skip:
  assumes "rx_search n r s = Some g"
  shows "rx_search n r (pre @ s) \<noteq> None"
  using assms by (induction pre) (auto split: list.splits)

lemma re_d_not_s: "re_d c \<Longrightarrow> \<not> re_s c"
  by (auto simp add: re_d_def re_s_def Let_def)

lemma re_w_not_s: "re_w c \<Longrightarrow> \<not> re_s c"
  by (auto simp add: re_w_def re_s_def Let_def)

lemma re_s_not_w: "re_s c \<Longrightarrow> \<not> re_w c"
  by (auto simp add: re_w_def re_s_def Let_def)

lemma re_s_not_d: "re_s c \<Longrightarrow> \<not> re_d c"
  by (auto simp add: re_d_def re_s_def Let_def)

lemma rx_match_day_month_year:
  assumes "day_month_year d w1 m w2 y"
  shows "\<exists>ms. rx_match n rx_day_month_year (d @ w1 @ m @ w2 @ y @ rest) = ([d, m, y], rest) # ms"
proof -
  from assms have d: "1 \<le> length d" "length d \<le> 2" "\<forall>c\<in>set d. re_d c"
    and w1: "w1 \<noteq> []" "\<forall>c\<in>set w1. re_s c"
    and m: "m \<noteq> []" "\<forall>c\<in>set m. re_w c"
    and w2: "w2 \<noteq> []" "\<forall>c\<in>set w2. re_s c"
    and y: "length y = 4" "\<forall>c\<in>set y. re_d c"
    by (auto simp add: day_month_year_def list_all_iff Suc_le_eq)
  have hw1: "\<not> re_d (hd (w1 @ m @ w2 @ y @ rest))" using w1 by (cases w1) (auto dest: re_s_not_d)
  have hm: "\<not> re_s (hd (m @ w2 @ y @ rest))" using m by (cases m) (auto dest: re_w_not_s)
  have hw2: "\<not> re_w (hd (w2 @ y @ rest))" using w2 by (cases w2) (auto dest: re_s_not_w)
  have hy: "\<not> re_s (hd (y @ rest))" using y by (cases y) (auto dest: re_d_not_s)
  obtain m1 where 1: "rx_match n (Rep 1 2 re_d) (d @ w1 @ m @ w2 @ y @ rest) = ([], w1 @ m @ w2 @ y @ rest) # m1"
    using rx_match_Rep_first [OF d(1) d(2) d(3), of "w1 @ m @ w2 @ y @ rest" n] hw1 by blast
  obtain m2 where 2: "rx_match n (Plus re_s) (w1 @ m @ w2 @ y @ rest) = ([], m @ w2 @ y @ rest) # m2"
    using rx_match_Plus_first [OF w1, of "m @ w2 @ y @ rest" n] hm by blast
  obtain m3 where 3: "rx_match n (Plus re_w) (m @ w2 @ y @ rest) = ([], w2 @ y @ rest) # m3"
    using rx_match_Plus_first [OF m, of "w2 @ y @ rest" n] hw2 by blast
  obtain m4 where 4: "rx_match n (Plus re_s) (w2 @ y @ rest) = ([], y @ rest) # m4"
    using rx_match_Plus_first [OF w2, of "y @ rest" n] hy by blast
  obtain m5 where 5: "rx_match n (Rep 4 4 re_d) (y @ rest) = ([], rest) # m5"
    using rx_match_Rep_first [of 4 y 4 re_d rest n] y by simp
  note g1 = rx_match_Grp_first [OF 1]
  note g3 = rx_match_Grp_first [OF 3]
  note g5 = rx_match_Grp_first [OF 5]
  from g5 obtain k5 where k5: "rx_match n (Grp (Rep 4 4 re_d)) (y @ rest) = ([y], rest) # k5" by blast
  from rx_match_Seq_first [OF 4 k5]
  obtain k4 where k4: "rx_match n (Seq (Plus re_s) (Grp (Rep 4 4 re_d))) (w2 @ y @ rest) = ([y], rest) # k4"
    by (simp only: append.simps) blast
  from g3 obtain k3' where k3': "rx_match n (Grp (Plus re_w)) (m @ w2 @ y @ rest) = ([m], w2 @ y @ rest) # k3'" by blast
  from rx_match_Seq_first [OF k3' k4]
  obtain k3 where k3: "rx_match n (Seq (Grp (Plus re_w)) (Seq (Plus re_s) (Grp (Rep 4 4 re_d)))) (m @ w2 @ y @ rest) = ([m, y], rest) # k3"
    by (simp only: append.simps) blast
  from rx_match_Seq_first [OF 2 k3]
  obtain k2 where k2: "rx_match n (Seq (Plus re_s) (Seq (Grp (Plus re_w)) (Seq (Plus re_s) (Grp (Rep 4 4 re_d))))) (w1 @ m @ w2 @ y @ rest) = ([m, y], rest) # k2"
    by (simp only: append.simps) blast
  from g1 obtain k1' where k1': "rx_match n (Grp (Rep 1 2 re_d)) (d @ w1 @ m @ w2 @ y @ rest) = ([d], w1 @ m @ w2 @ y @ rest) # k1'" by blast
  from rx_match_Seq_first [OF k1' k2]
  show ?thesis unfolding rx_day_month_year_def by (simp only: append.simps)
qed

lemma parse_date_day_month_year:
  assumes "day_month_year d w1 m w2 y"
  shows "parse_date (d @ w1 @ m @ w2 @ y @ rest) = y @ ''-'' @ month_number m @ ''-'' @ zfill 2 d"
proof -
  obtain ms where "rx_match (length (d @ w1 @ m @ w2 @ y @ rest)) rx_day_month_year (d @ w1 @ m @ w2 @ y @ rest) = ([d, m, y], rest) # ms"
    using rx_match_day_month_year [OF assms] by blast
  then have "re_search rx_day_month_year (d @ w1 @ m @ w2 @ y @ rest) = Some [d, m, y]"
    unfolding re_search_def by (simp only: rx_search_first fst_conv)
  then show ?thesis
    by (simp add: parse_date_def)
qed

lemma take_le_takeWhile:
  assumes "k \<le> length (takeWhile P s)"
  shows "\<forall>c\<in>set (take k s). P c"
proof -
  have "take k s = take k (takeWhile P s @ dropWhile P s)" by simp
  also have "\<dots> = take k (takeWhile P s)" using assms by (simp only: take_append) simp
  finally show ?thesis by (auto dest: in_set_takeD set_takeWhileD)
qed

lemma rx_match_Rep_sound:
  assumes "(g, t) \<in> set (rx_match n (Rep lo hi P) s)"
  shows "\<exists>xs. s = xs @ t \<and> g = [] \<and> lo \<le> length xs \<and> length xs \<le> hi \<and> (\<forall>c\<in>set xs. P c)"
proof -
  from assms obtain k where k: "lo \<le> k" "k \<le> hi" "k \<le> length (takeWhile P s)"
      and t: "t = drop k s" and g: "g = []"
    by (auto simp del: upt_Suc)
  have kl: "k \<le> length s" using k(3) length_takeWhile_le [of P s] by simp
  have "s = take k s @ t" using t by simp
  moreover have "length (take k s) = k" using kl by simp
  ultimately show ?thesis using k g take_le_takeWhile [OF k(3)] by metis
qed

lemma rx_match_Plus_sound:
  assumes "(g, t) \<in> set (rx_match n (Plus P) s)"
  shows "\<exists>xs. s = xs @ t \<and> g = [] \<and> xs \<noteq> [] \<and> (\<forall>c\<in>set xs. P c)"
proof -
  from assms obtain k where k: "1 \<le> k" "k \<le> length (takeWhile P s)"
      and t: "t = drop k s" and g: "g = []"
    by (auto simp del: upt_Suc)
  have kl: "k \<le> length s" using k(2) length_takeWhile_le [of P s] by simp
  have "s = take k s @ t" using t by simp
  moreover have "take k s \<noteq> []" using kl k(1) by (cases s) auto
  ultimately show ?thesis using g take_le_takeWhile [OF k(2)] by metis
qed

lemma rx_match_Seq_sound:
  assumes "(g, t) \<in> set (rx_match n (Seq a b) s)"
  shows "\<exists>g1 r g2. (g1, r) \<in> set (rx_match n a s) \<and> (g2, t) \<in> set (rx_match n b r) \<and> g = g1 @ g2"
proof -
  from assms obtain x where x: "x \<in> set (rx_match n a s)"
    and m: "(g, t) \<in> set (case x of (g, r) \<Rightarrow> map (\<lambda>(h, t). (g @ h, t)) (rx_match n b r))"
    by (auto simp only: rx_match.simps set_concat set_map)
  obtain g1 r where xr: "x = (g1, r)" by (cases x)
  from m obtain y where y: "y \<in> set (rx_match n b r)" and gt: "(g, t) = (case y of (h, t) \<Rightarrow> (g1 @ h, t))"
    unfolding xr by (auto simp only: prod.case set_map)
  obtain g2 t' where yr: "y = (g2, t')" by (cases y)
  from gt have "g = g1 @ g2" "t = t'" unfolding yr by simp_all
  with x y show ?thesis unfolding xr yr by blast
qed

lemma rx_match_Grp_sound:
  assumes "(g, t) \<in> set (rx_match n (Grp a) s)"
  shows "\<exists>g'. (g', t) \<in> set (rx_match n a s) \<and> g = take (length s - length t) s # g'"
proof -
  from assms obtain y where y: "y \<in> set (rx_match n a s)"
    and gt: "(g, t) = (case y of (g, r) \<Rightarrow> (take (length s - length r) s # g, r))"
    by (auto simp only: rx_match.simps set_map)
  obtain g' t' where yr: "y = (g', t')" by (cases y)
  from gt have "g = take (length s - length t) s # g'" "t = t'" unfolding yr by simp_all
  with y show ?thesis unfolding yr by blast
qed

lemma rx_match_day_month_year_sound:
  assumes "(g, t) \<in> set (rx_match n rx_day_month_year s)"
  shows "\<exists>d w1 m w2 y. s = d @ w1 @ m @ w2 @ y @ t \<and> day_month_year d w1 m w2 y"
proof -
  from rx_match_Seq_sound [OF assms [unfolded rx_day_month_year_def]]
  obtain g1 r1 g1' where a1: "(g1, r1) \<in> set (rx_match n (Grp (Rep 1 2 re_d)) s)"
    and b1: "(g1', t) \<in> set (rx_match n (Seq (Plus re_s) (Seq (Grp (Plus re_w))
       (Seq (Plus re_s) (Grp (Rep 4 4 re_d))))) r1)"
    by blast
  from rx_match_Seq_sound [OF b1]
  obtain g2 r2 g2' where a2: "(g2, r2) \<in> set (rx_match n (Plus re_s) r1)"
    and b2: "(g2', t) \<in> set (rx_match n (Seq (Grp (Plus re_w))
       (Seq (Plus re_s) (Grp (Rep 4 4 re_d)))) r2)"
    by blast
  from rx_match_Seq_sound [OF b2]
  obtain g3 r3 g3' where a3: "(g3, r3) \<in> set (rx_match n (Grp (Plus re_w)) r2)"
    and b3: "(g3', t) \<in> set (rx_match n (Seq (Plus re_s) (Grp (Rep 4 4 re_d))) r3)"
    by blast
  from rx_match_Seq_sound [OF b3]
  obtain g4 r4 g5 where a4: "(g4, r4) \<in> set (rx_match n (Plus re_s) r3)"
    and a5: "(g5, t) \<in> set (rx_match n (Grp (Rep 4 4 re_d)) r4)"
    by blast
  from rx_match_Grp_sound [OF a1]
  obtain h1 where "(h1, r1) \<in> set (rx_match n (Rep 1 2 re_d) s)" by blast
  from rx_match_Rep_sound [OF this]
  obtain d where d: "s = d @ r1" "1 \<le> length d" "length d \<le> 2" "\<forall>c\<in>set d. re_d c"
    by blast
  from rx_match_Plus_sound [OF a2]
  obtain w1 where w1: "r1 = w1 @ r2" "w1 \<noteq> []" "\<forall>c\<in>set w1. re_s c"
    by blast
  from rx_match_Grp_sound [OF a3]
  obtain h3 where "(h3, r3) \<in> set (rx_match n (Plus re_w) r2)" by blast
  from rx_match_Plus_sound [OF this]
  obtain m where m: "r2 = m @ r3" "m \<noteq> []" "\<forall>c\<in>set m. re_w c"
    by blast
  from rx_match_Plus_sound [OF a4]
  obtain w2 where w2: "r3 = w2 @ r4" "w2 \<noteq> []" "\<forall>c\<in>set w2. re_s c"
    by blast
  from rx_match_Grp_sound [OF a5]
  obtain h5 where "(h5, t) \<in> set (rx_match n (Rep 4 4 re_d) r4)" by blast
  from rx_match_Rep_sound [OF this]
  obtain y where y: "r4 = y @ t" "4 \<le> length y" "length y \<le> 4" "\<forall>c\<in>set y. re_d c"
    by blast
  have "d \<noteq> []" using d(2) by auto
  then have "day_month_year d w1 m w2 y"
    using d(3,4) w1(2,3) m(2,3) w2(2,3) y(2,3,4) by (simp add: day_month_year_def list_all_iff)
  moreover have "s = d @ w1 @ m @ w2 @ y @ t"
    using d(1) w1(1) m(1) w2(1) y(1) by simp
  ultimately show ?thesis by blast
qed

lemma rx_search_sound:
  assumes "rx_search n r s = Some g"
  shows "\<exists>pre s' t. s = pre @ s' \<and> (g, t) \<in> set (rx_match n r s')"
  using assms
proof (induction s)
  case Nil
  then obtain m ms where "rx_match n r [] = m # ms" "g = fst m"
    by (auto split: list.splits)
  then have *: "[] = [] @ [] \<and> (g, snd m) \<in> set (rx_match n r [])" by simp
  show ?case
    by (rule exI [where x = "[]"], rule exI [where x = "[]"], rule exI [where x = "snd m"], rule *)
next
  case (Cons c cs)
  show ?case
  proof (cases "rx_match n r (c # cs)")
    case Nil
    with Cons.prems have "rx_search n r cs = Some g" by simp
    from Cons.IH [OF this] obtain pre s' t where "cs = pre @ s'" "(g, t) \<in> set (rx_match n r s')"
      by blast
    then have *: "c # cs = (c # pre) @ s' \<and> (g, t) \<in> set (rx_match n r s')" by simp
    show ?thesis
      by (rule exI [where x = "c # pre"], rule exI [where x = s'], rule exI [where x = t], rule *)
  next
    case (Cons m ms)
    with Cons.prems have "g = fst m" by simp
    with Cons have *: "c # cs = [] @ (c # cs) \<and> (g, snd m) \<in> set (rx_match n r (c # cs))"
      by simp
    show ?thesis
      by (rule exI [where x = "[]"], rule exI [where x = "c # cs"], rule exI [where x = "snd m"],
          rule *)
  qed
qed

lemma re_search_day_month_year_iff:
  "re_search rx_day_month_year date \<noteq> None \<longleftrightarrow> contains_day_month_year date"
proof
  assume "re_search rx_day_month_year date \<noteq> None"
  then obtain g where "rx_search (length date) rx_day_month_year date = Some g"
    by (auto simp add: re_search_def)
  from rx_search_sound [OF this] obtain pre s' t where
    dt: "date = pre @ s'" and "(g, t) \<in> set (rx_match (length date) rx_day_month_year s')" by blast
  from rx_match_day_month_year_sound [OF this(2)]
  obtain d w1 m w2 y where "s' = d @ w1 @ m @ w2 @ y @ t" "day_month_year d w1 m w2 y" by blast
  with dt show "contains_day_month_year date"
    unfolding contains_day_month_year_def by blast
next
  assume "contains_day_month_year date"
  then obtain pre d w1 m w2 y rest where
    dt: "date = pre @ d @ w1 @ m @ w2 @ y @ rest" and f: "day_month_year d w1 m w2 y"
    unfolding contains_day_month_year_def by blast
  obtain ms where "rx_match (length date) rx_day_month_year (d @ w1 @ m @ w2 @ y @ rest)
                     = ([d, m, y], rest) # ms"
    using rx_match_day_month_year [OF f] by blast
  then have "rx_search (length date) rx_day_month_year (d @ w1 @ m @ w2 @ y @ rest) = Some [d, m, y]"
    by (simp only: rx_search_first fst_conv)
  from rx_search_skip [OF this] show "re_search rx_day_month_year date \<noteq> None"
    unfolding re_search_def dt by blast
qed

lemma rx_match_bare_year_elsewhere: "length s \<noteq> n \<Longrightarrow> rx_match n rx_bare_year s = []"
  by (simp add: rx_bare_year_def)

lemma rx_search_bare_year_elsewhere: "length s < n \<Longrightarrow> rx_search n rx_bare_year s = None"
  by (induction s) (simp_all add: rx_match_bare_year_elsewhere)

lemma rx_match_bare_year_sound:
  assumes "(g, t) \<in> set (rx_match n rx_bare_year s)"
  shows "bare_year s \<or> (bare_year (butlast s) \<and> last s = CHR 0x0A)"
proof -
  from rx_match_Seq_sound [OF assms [unfolded rx_bare_year_def]]
  obtain g1 r1 g1' where "(g1', t) \<in> set (rx_match n (Seq (Rep 4 4 re_d) Eol) r1)"
    and "(g1, r1) \<in> set (rx_match n Bol s)" by blast
  then have b: "(g1', t) \<in> set (rx_match n (Seq (Rep 4 4 re_d) Eol) s)"
    by (auto split: if_splits)
  from rx_match_Seq_sound [OF b]
  obtain g2 r2 g3 where a2: "(g2, r2) \<in> set (rx_match n (Rep 4 4 re_d) s)"
    and a3: "(g3, t) \<in> set (rx_match n Eol r2)" by blast
  from rx_match_Rep_sound [OF a2]
  obtain y where y: "s = y @ r2" "4 \<le> length y" "length y \<le> 4" "\<forall>c\<in>set y. re_d c" by blast
  then have yr: "bare_year y" by (simp add: bare_year_def list_all_iff)
  from a3 have "r2 = [] \<or> r2 = [CHR 0x0A]" by (auto split: if_splits)
  then show ?thesis
  proof
    assume "r2 = []" with y(1) yr show ?thesis by simp
  next
    assume "r2 = [CHR 0x0A]"
    with y(1) yr show ?thesis by simp
  qed
qed

lemma re_search_bare_year_sound:
  assumes "re_search rx_bare_year s \<noteq> None"
  shows "bare_year s \<or> (bare_year (butlast s) \<and> last s = CHR 0x0A)"
proof -
  from assms obtain g where "rx_search (length s) rx_bare_year s = Some g"
    by (auto simp add: re_search_def)
  from rx_search_sound [OF this] obtain pre s' t where
    dt: "s = pre @ s'" and m: "(g, t) \<in> set (rx_match (length s) rx_bare_year s')" by blast
  have "length s' = length s"
  proof (rule ccontr)
    assume "length s' \<noteq> length s"
    from rx_match_bare_year_elsewhere [OF this] m show False by simp
  qed
  with dt have "s' = s" by simp
  with m rx_match_bare_year_sound show ?thesis by blast
qed

lemma parse_date_unknown_date: "parse_date unknown_date = unknown_date"
  by code_simp

lemma parse_date_empty: "parse_date [] = []"
  by code_simp

lemma normalize_date_PStr: "normalize_date (PStr s) = PStr (parse_date s)"
  by (simp add: normalize_date_def parse_date_unknown_date parse_date_empty)

lemma normalize_date_other: "\<forall>s. v \<noteq> PStr s \<Longrightarrow> normalize_date v = v"
  by (cases v) (simp_all add: normalize_date_def)

lemma parse_date_no_match:
  assumes "\<not> contains_day_month_year date" and "\<not> bare_year date"
    and "\<not> (bare_year (butlast date) \<and> last date = CHR 0x0A)"
  shows "parse_date date = date"
proof -
  have 1: "re_search rx_day_month_year date = None"
    using assms(1) re_search_day_month_year_iff [of date] by simp
  have 3: "re_search rx_bare_year date = None"
    using assms(2,3) re_search_bare_year_sound [of date] by blast
  show ?thesis by (simp add: parse_date_def 1 3)
qed

lemma no_space_no_day_month_year:
  assumes "\<forall>c\<in>set date. \<not> re_s c"
  shows "\<not> contains_day_month_year date"
proof
  assume "contains_day_month_year date"
  then obtain pre d w1 m w2 y rest where
    dt: "date = pre @ d @ w1 @ m @ w2 @ y @ rest" and f: "day_month_year d w1 m w2 y"
    unfolding contains_day_month_year_def by blast
  from f have "w1 \<noteq> []" "\<forall>c\<in>set w1. re_s c"
    by (simp_all add: day_month_year_def list_all_iff)
  then obtain c where "c \<in> set w1" "re_s c" by (cases w1) auto
  with dt assms show False by auto
qed

lemma iso_like_unchanged:
  assumes "iso_like y a mo b d"
  shows "parse_date (y @ a # mo @ b # d) = y @ a # mo @ b # d"
proof (rule parse_date_no_match)
  have na: "\<not> re_s a" and nb: "\<not> re_s b"
    using assms by (auto simp add: iso_like_def re_s_def)
  have "\<forall>c\<in>set (y @ a # mo @ b # d). \<not> re_s c"
    using assms na nb by (auto simp add: iso_like_def list_all_iff dest: re_d_not_s)
  then show "\<not> contains_day_month_year (y @ a # mo @ b # d)"
    by (rule no_space_no_day_month_year)
  have len: "8 \<le> length (y @ a # mo @ b # d)"
    using assms by (cases mo; cases d) (simp_all add: iso_like_def)
  then show "\<not> bare_year (y @ a # mo @ b # d)"
    by (simp add: bare_year_def)
  from len show "\<not> (bare_year (butlast (y @ a # mo @ b # d)) \<and> last (y @ a # mo @ b # d) = CHR 0x0A)"
    by (simp add: bare_year_def)
qed

lemma zfill_day:
  assumes "d \<noteq> []" and "length d \<le> 2" and "list_all re_d d"
  shows "zfill 2 d = (if length d = 1 then CHR ''0'' # d else d)"
proof (cases "length d = 1")
  case True
  then obtain a where d: "d = [a]" by (cases d) auto
  with assms(3) have "re_d a" by simp
  then have "a \<noteq> CHR ''+''" "a \<noteq> CHR ''-''" by (auto simp add: re_d_def)
  with d show ?thesis by (simp add: zfill_def)
next
  case False
  moreover have "length d \<noteq> 0" using assms(1) by simp
  ultimately have "length d = 2" using assms(2) by arith
  then show ?thesis by (simp add: zfill_def)
qed

section \<open>Date normalization\<close>

text \<open>
  The month table is looked up with the first three characters of the word as they are
  written: \<open>sep\<close> is not in the table and gives month \<open>01\<close>.
\<close>

theorem lower_case_month_counterexample:
  "normalize_date (PStr ''21 sep 2025'') = PStr ''2025-01-21''"
  by (simp only: normalize_date_PStr) code_simp

text \<open>
  C2, as the code has it. A date that starts with a day of one or two digits, white
  space, a word, white space and a year of four digits becomes \<open>YYYY-MM-DD\<close>: the year,
  the number that the month table gives for the first three characters of the word,
  matched as they are written, or \<open>01\<close> when the table does not have them, and the day
  padded with a zero to two digits. \<open>21 Sep 2025\<close> becomes \<open>2025-09-21\<close>.
\<close>

theorem day_month_year_date_normalized:
  assumes "day_month_year d w1 m w2 y"
  shows "normalize_date (PStr (d @ w1 @ m @ w2 @ y @ rest))
           = PStr (y @ ''-'' @ month_number m @ ''-'' @ zfill 2 d)
       \<and> (\<forall>name num. (name, num) \<in> set months \<longrightarrow> take 3 m = name \<longrightarrow> month_number m = num)
       \<and> (take 3 m \<notin> fst ` set months \<longrightarrow> month_number m = ''01'')
       \<and> zfill 2 d = (if length d = 1 then CHR ''0'' # d else d)
       \<and> normalize_date (PStr ''21 Sep 2025'') = PStr ''2025-09-21''"
proof -
  have a: "normalize_date (PStr (d @ w1 @ m @ w2 @ y @ rest))
           = PStr (y @ ''-'' @ month_number m @ ''-'' @ zfill 2 d)"
    using parse_date_day_month_year [OF assms] by (simp add: normalize_date_PStr)
  have dm: "distinct (map fst months)" by (simp add: months_def)
  have b: "\<forall>name num. (name, num) \<in> set months \<longrightarrow> take 3 m = name \<longrightarrow> month_number m = num"
    using dm by (auto simp add: month_number_def)
  have c: "take 3 m \<notin> fst ` set months \<longrightarrow> month_number m = ''01''"
  proof
    assume "take 3 m \<notin> fst ` set months"
    then have "map_of months (take 3 m) = None" by (simp add: map_of_eq_None_iff)
    then show "month_number m = ''01''" by (simp add: month_number_def)
  qed
  have "d \<noteq> []" "length d \<le> 2" "list_all re_d d"
    using assms by (simp_all add: day_month_year_def)
  then have e: "zfill 2 d = (if length d = 1 then CHR ''0'' # d else d)"
    by (rule zfill_day)
  have f: "normalize_date (PStr ''21 Sep 2025'') = PStr ''2025-09-21''"
    by (simp only: normalize_date_PStr) code_simp
  from a b c e f show ?thesis by blast
qed

theorem day_month_year_date_normalized_witness:
  "day_month_year ''5'' '' '' ''March'' '' '' ''2021''
   \<and> normalize_date (PStr ''5 March 2021 (online)'') = PStr ''2021-03-05''"
proof -
  have h: "day_month_year ''5'' '' '' ''March'' '' '' ''2021''"
    by (simp add: day_month_year_def re_d_def re_s_def re_w_def)
  have m: "month_number ''March'' = ''03''" by (simp add: month_number_def months_def)
  show ?thesis
    using h m day_month_year_date_normalized [OF h, of "'' (online)''"] by simp
qed

text \<open>
  Two dates that are neither a day, a month name and a year nor four digits, and that
  the normalization changes: a year followed by a line feed, which \<open>$\<close> lets through,
  and a text in which digits, a word and four digits follow each other.
\<close>

theorem date_changed_counterexample:
  "\<not> contains_day_month_year (''2024'' @ [CHR 0x0A])
   \<and> \<not> bare_year (''2024'' @ [CHR 0x0A])
   \<and> normalize_date (PStr (''2024'' @ [CHR 0x0A])) = PStr (''2024'' @ [CHR 0x0A] @ ''-01-01'')
   \<and> normalize_date (PStr ''issue 12 pages 2024'') = PStr ''2024-01-12''"
proof -
  have "re_search rx_day_month_year (''2024'' @ [CHR 0x0A]) = None" by code_simp
  then have a: "\<not> contains_day_month_year (''2024'' @ [CHR 0x0A])"
    using re_search_day_month_year_iff [of "''2024'' @ [CHR 0x0A]"] by simp
  have b: "\<not> bare_year (''2024'' @ [CHR 0x0A])" by (simp add: bare_year_def)
  have c: "normalize_date (PStr (''2024'' @ [CHR 0x0A])) = PStr (''2024'' @ [CHR 0x0A] @ ''-01-01'')"
    by (simp only: normalize_date_PStr) code_simp
  have d: "normalize_date (PStr ''issue 12 pages 2024'') = PStr ''2024-01-12''"
    by (simp only: normalize_date_PStr) code_simp
  from a b c d show ?thesis by simp
qed

text \<open>
  C6, as the code has it. The normalization leaves a date as it is when no day, word and
  year occur in it and it is not four digits, with or without a line feed after them.
  In particular a date written as year, month and day with \<open>-\<close> or \<open>/\<close> between them,
  such as the canonical \<open>YYYY-MM-DD\<close>, comes back character for character, and a value
  that is not a string comes back as it is: nothing is raised.
\<close>

theorem date_without_match_unchanged:
  "(\<not> contains_day_month_year date \<and> \<not> bare_year date
      \<and> \<not> (bare_year (butlast date) \<and> last date = CHR 0x0A)
      \<longrightarrow> normalize_date (PStr date) = PStr date)
   \<and> (iso_like y a mo b d \<longrightarrow>
        normalize_date (PStr (y @ a # mo @ b # d)) = PStr (y @ a # mo @ b # d))
   \<and> ((\<forall>s. v \<noteq> PStr s) \<longrightarrow> normalize_date v = v)"
  using parse_date_no_match [of date] iso_like_unchanged [of y a mo b d]
        normalize_date_other [of v]
  by (simp add: normalize_date_PStr)

theorem date_without_match_unchanged_witness:
  "\<not> contains_day_month_year ''Spring 2024'' \<and> \<not> bare_year ''Spring 2024''
   \<and> normalize_date (PStr ''Spring 2024'') = PStr ''Spring 2024''
   \<and> iso_like ''2025'' CHR ''-'' ''09'' CHR ''-'' ''21''
   \<and> normalize_date (PStr ''2025-09-21'') = PStr ''2025-09-21''
   \<and> iso_like ''2025'' CHR ''/'' ''9'' CHR ''/'' ''21''
   \<and> normalize_date (PStr ''2025/9/21'') = PStr ''2025/9/21''
   \<and> normalize_date PNone = PNone"
proof -
  have "re_search rx_day_month_year ''Spring 2024'' = None" by code_simp
  then have a: "\<not> contains_day_month_year ''Spring 2024''"
    using re_search_day_month_year_iff [of "''Spring 2024''"] by simp
  have b: "\<not> bare_year ''Spring 2024''"
    and c: "\<not> (bare_year (butlast ''Spring 2024'') \<and> last ''Spring 2024'' = CHR 0x0A)"
    by (simp_all add: bare_year_def)
  have i: "iso_like ''2025'' CHR ''-'' ''09'' CHR ''-'' ''21''"
    and j: "iso_like ''2025'' CHR ''/'' ''9'' CHR ''/'' ''21''"
    by (simp_all add: iso_like_def re_d_def)
  show ?thesis
    using a b c i j
      date_without_match_unchanged [of "''Spring 2024''" "''2025''" "CHR ''-''" "''09''" "CHR ''-''" "''21''" PNone]
      date_without_match_unchanged [of "''Spring 2024''" "''2025''" "CHR ''/''" "''9''" "CHR ''/''" "''21''" PNone]
    by simp
qed

section \<open>Parsing an authors string\<close>

lemma split_where_nonempty: "split_where P xs \<noteq> []"
  by (induction xs) (auto split: list.splits)

lemma split_where_block:
  assumes "\<forall>x\<in>set xs. \<not> P x" and "P s"
  shows "split_where P (xs @ s # ys) = xs # split_where P ys"
  using assms by (induction xs) simp_all

lemma split_where_none:
  assumes "\<forall>x\<in>set xs. \<not> P x"
  shows "split_where P xs = [xs]"
  using assms by (induction xs) simp_all

lemma words_from_word:
  assumes "\<forall>c\<in>set w. \<not> re_s c"
  shows "words_from cur (w @ rest) = words_from (cur @ w) rest"
  using assms by (induction w arbitrary: cur) simp_all

lemma split_words_join:
  assumes "person ws"
  shows "split_words (join_with '' '' ws) = ws"
proof -
  have sp: "re_s CHR '' ''" by (simp add: re_s_def)
  have "list_all name_word ws \<Longrightarrow> words_from [] (join_with '' '' ws) = ws"
  proof (induction ws rule: induct_list012)
    case 1
    then show ?case by simp
  next
    case (2 x)
    then have "\<forall>c\<in>set x. \<not> re_s c" "x \<noteq> []"
      by (auto simp add: name_word_def list_all_iff)
    then show ?case using words_from_word [of x "[]" "[]"] by simp
  next
    case (3 x y ys)
    from 3(3) have x: "\<forall>c\<in>set x. \<not> re_s c" "x \<noteq> []"
      by (auto simp add: name_word_def list_all_iff)
    from 3(2,3) have "words_from [] (join_with '' '' (y # ys)) = y # ys" by simp
    then show ?case
      using x sp words_from_word [of x "[]" "CHR '' '' # join_with '' '' (y # ys)"] by simp
  qed
  with assms show ?thesis by (simp add: split_words_def person_def)
qed

lemma split_words_space: "split_words (CHR '' '' # s) = split_words s"
  by (simp add: split_words_def re_s_def)

lemma join_words_chars:
  assumes "person ws" and "c \<in> set (join_with '' '' ws)"
  shows "c \<noteq> CHR '','' \<and> c \<noteq> CHR '';''"
proof -
  have "list_all name_word ws \<Longrightarrow> c \<in> set (join_with '' '' ws) \<Longrightarrow> c \<noteq> CHR '','' \<and> c \<noteq> CHR '';''"
    by (induction ws rule: induct_list012)
       (auto simp add: name_word_def list_all_iff)
  with assms show ?thesis by (simp add: person_def)
qed

lemma split_and_person:
  assumes "person ws"
  shows "split_where (\<lambda>w. w = ''and'' \<or> w = ''&'') ws = [ws]"
  using assms by (intro split_where_none) (auto simp add: person_def name_word_def list_all_iff)

lemma join_with_append:
  assumes "xs \<noteq> []" and "ys \<noteq> []"
  shows "join_with sep (xs @ ys) = join_with sep xs @ sep @ join_with sep ys"
  using assms
proof (induction xs rule: induct_list012)
  case 1
  then show ?case by simp
next
  case (2 x)
  then show ?case by (cases ys) simp_all
next
  case (3 x y zs)
  then show ?case by simp
qed

lemma join_with_Cons:
  assumes "ys \<noteq> []"
  shows "join_with sep (x # ys) = x @ sep @ join_with sep ys"
  using assms by (cases ys) simp_all

lemma join_with_nonempty:
  assumes "xs \<noteq> []" and "\<forall>x\<in>set xs. x \<noteq> []"
  shows "join_with sep xs \<noteq> []"
  using assms by (induction xs rule: induct_list012) auto

lemma name_word_plain: "name_word w \<Longrightarrow> plain_word w"
  by (simp add: name_word_def plain_word_def list_all_iff)

lemma split_words_plain:
  assumes "list_all plain_word ws"
  shows "split_words (join_with '' '' ws) = ws"
proof -
  have sp: "re_s CHR '' ''" by (simp add: re_s_def)
  have "list_all plain_word ws \<Longrightarrow> words_from [] (join_with '' '' ws) = ws"
  proof (induction ws rule: induct_list012)
    case 1
    then show ?case by simp
  next
    case (2 x)
    then have "\<forall>c\<in>set x. \<not> re_s c" "x \<noteq> []"
      by (auto simp add: plain_word_def)
    then show ?case using words_from_word [of x "[]" "[]"] by simp
  next
    case (3 x y ys)
    from 3(3) have x: "\<forall>c\<in>set x. \<not> re_s c" "x \<noteq> []"
      by (auto simp add: plain_word_def)
    from 3(2,3) have "words_from [] (join_with '' '' (y # ys)) = y # ys" by simp
    then show ?case
      using x sp words_from_word [of x "[]" "CHR '' '' # join_with '' '' (y # ys)"] by simp
  qed
  with assms show ?thesis by (simp add: split_words_def)
qed

lemma join_join:
  assumes "g \<noteq> []" and "\<forall>p\<in>set g. p \<noteq> []"
  shows "join_with ('' '' @ cw @ '' '') (map (join_with '' '') g)
           = join_with '' '' (join_with [cw] g)"
  using assms
proof (induction g rule: induct_list012)
  case 1
  then show ?case by simp
next
  case (2 x)
  then show ?case by simp
next
  case (3 x y zs)
  have ne: "join_with [cw] (y # zs) \<noteq> []"
    using 3(4) by (cases zs) auto
  have "join_with '' '' (join_with [cw] (x # y # zs))
          = join_with '' '' (x @ cw # join_with [cw] (y # zs))" by simp
  also have "\<dots> = join_with '' '' x @ '' '' @ join_with '' '' (cw # join_with [cw] (y # zs))"
    using 3(4) by (simp add: join_with_append)
  also have "\<dots> = join_with '' '' x @ '' '' @ cw @ '' '' @ join_with '' '' (join_with [cw] (y # zs))"
    using ne by (simp add: join_with_Cons)
  finally show ?case using 3(2,4) by simp
qed

lemma split_and_join:
  assumes "list_all person g" and "g \<noteq> []" and "cw = ''and'' \<or> cw = ''&''"
  shows "split_where (\<lambda>w. w = ''and'' \<or> w = ''&'') (join_with [cw] g) = g"
  using assms(1,2)
proof (induction g rule: induct_list012)
  case 1
  then show ?case by simp
next
  case (2 x)
  then show ?case by (simp add: split_and_person)
next
  case (3 x y zs)
  from 3(3) have "\<forall>w\<in>set x. \<not> (w = ''and'' \<or> w = ''&'')"
    by (auto simp add: person_def name_word_def list_all_iff)
  then have "split_where (\<lambda>w. w = ''and'' \<or> w = ''&'') (x @ cw # join_with [cw] (y # zs))
               = x # split_where (\<lambda>w. w = ''and'' \<or> w = ''&'') (join_with [cw] (y # zs))"
    using assms(3) by (intro split_where_block) auto
  with 3(2,3) show ?case by simp
qed

lemma group_words:
  assumes "list_all person g" and "g \<noteq> []" and "cw = ''and'' \<or> cw = ''&''"
  shows "split_words (join_with ('' '' @ cw @ '' '') (map (join_with '' '') g)) = join_with [cw] g"
proof -
  have ne: "\<forall>p\<in>set g. p \<noteq> []" using assms(1) by (auto simp add: person_def list_all_iff)
  have cwp: "plain_word cw" using assms(3) by (auto simp add: plain_word_def re_s_def)
  have "list_all plain_word (join_with [cw] g)"
    using assms(1,2)
  proof (induction g rule: induct_list012)
    case 1
    then show ?case by simp
  next
    case (2 x)
    then show ?case by (auto simp add: person_def list_all_iff dest: name_word_plain)
  next
    case (3 x y zs)
    then show ?case using cwp by (auto simp add: person_def list_all_iff dest: name_word_plain)
  qed
  then show ?thesis
    using join_join [OF assms(2) ne, of cw] by (simp add: split_words_plain)
qed

lemma set_join_with: "set (join_with sep xs) \<subseteq> set sep \<union> \<Union> (set ` set xs)"
  by (induction xs rule: induct_list012) auto

lemma render_group_chars:
  assumes "name_group g" and "cw = ''and'' \<or> cw = ''&''" and "c \<in> set (render_group cw g)"
  shows "c \<noteq> CHR '','' \<and> c \<noteq> CHR '';''"
proof -
  from assms(3) set_join_with [of "'' '' @ cw @ '' ''" "map (join_with '' '') g"]
  have "c \<in> set ('' '' @ cw @ '' '') \<or> (\<exists>p\<in>set g. c \<in> set (join_with '' '' p))"
    unfolding render_group_def by auto
  then show ?thesis
  proof
    assume "c \<in> set ('' '' @ cw @ '' '')"
    with assms(2) show ?thesis by auto
  next
    assume "\<exists>p\<in>set g. c \<in> set (join_with '' '' p)"
    then obtain p where "p \<in> set g" "c \<in> set (join_with '' '' p)" by blast
    moreover from this assms(1) have "person p" by (simp add: name_group_def list_all_iff)
    ultimately show ?thesis using join_words_chars by blast
  qed
qed

lemma piece_of_group:
  assumes "name_group g" and "cw = ''and'' \<or> cw = ''&''" and "pad = [] \<or> pad = '' ''"
  shows "split_where (\<lambda>w. w = ''and'' \<or> w = ''&'') (split_words (pad @ render_group cw g)) = g"
proof -
  have "split_words (pad @ render_group cw g) = split_words (render_group cw g)"
    using assms(3) by (auto simp add: split_words_space)
  also have "\<dots> = join_with [cw] g"
    using assms(1,2) unfolding render_group_def name_group_def by (intro group_words) simp_all
  finally show ?thesis
    using assms(1,2) split_and_join [of g cw] by (simp add: name_group_def)
qed

lemma comma_pieces:
  assumes "list_all name_group groups" and "groups \<noteq> []" and "cw = ''and'' \<or> cw = ''&''"
    and "pad = [] \<or> pad = '' ''"
  shows "concat (map (\<lambda>piece. split_where (\<lambda>w. w = ''and'' \<or> w = ''&'') (split_words piece))
                     (split_where (\<lambda>c. c = CHR '','')
                        (pad @ join_with '', '' (map (render_group cw) groups))))
           = concat groups"
  using assms(1,2,4)
proof (induction groups arbitrary: pad rule: induct_list012)
  case 1
  then show ?case by simp
next
  case (2 g)
  then have g: "name_group g" by simp
  have "\<forall>c\<in>set (pad @ render_group cw g). \<not> c = CHR '',''"
    using render_group_chars [OF g assms(3)] 2(3) by auto
  then have "split_where (\<lambda>c. c = CHR '','') (pad @ render_group cw g) = [pad @ render_group cw g]"
    by (rule split_where_none)
  then show ?case using piece_of_group [OF g assms(3) 2(3)] by simp
next
  case (3 g h hs)
  from 3(3) have g: "name_group g" and rest: "list_all name_group (h # hs)" by simp_all
  have nc: "\<forall>c\<in>set (pad @ render_group cw g). \<not> c = CHR '',''"
    using render_group_chars [OF g assms(3)] 3(5) by auto
  have "pad @ join_with '', '' (map (render_group cw) (g # h # hs))
          = (pad @ render_group cw g) @ CHR '','' # ('' '' @ join_with '', '' (map (render_group cw) (h # hs)))"
    by simp
  then have "split_where (\<lambda>c. c = CHR '','') (pad @ join_with '', '' (map (render_group cw) (g # h # hs)))
          = (pad @ render_group cw g)
            # split_where (\<lambda>c. c = CHR '','') ('' '' @ join_with '', '' (map (render_group cw) (h # hs)))"
    using split_where_block [OF nc, of "CHR '',''"] by simp
  then show ?case
    using piece_of_group [OF g assms(3) 3(5)] 3(2) [OF rest, of "'' ''"] by simp
qed

lemma semicolon_pieces:
  assumes "list_all person ps" and "ps \<noteq> []" and "pad = [] \<or> pad = '' ''"
  shows "map split_words (split_where (\<lambda>c. c = CHR '';'')
                            (pad @ join_with ''; '' (map (join_with '' '') ps))) = ps"
  using assms
proof (induction ps arbitrary: pad rule: induct_list012)
  case 1
  then show ?case by simp
next
  case (2 p)
  then have p: "person p" by simp
  have "\<forall>c\<in>set (pad @ join_with '' '' p). \<not> c = CHR '';''"
    using join_words_chars [OF p] 2(3) by auto
  then have "split_where (\<lambda>c. c = CHR '';'') (pad @ join_with '' '' p) = [pad @ join_with '' '' p]"
    by (rule split_where_none)
  moreover have "split_words (pad @ join_with '' '' p) = p"
    using 2(3) split_words_join [OF p] by (auto simp add: split_words_space)
  ultimately show ?case by simp
next
  case (3 p q qs)
  from 3(3) have p: "person p" and rest: "list_all person (q # qs)" by simp_all
  have nc: "\<forall>c\<in>set (pad @ join_with '' '' p). \<not> c = CHR '';''"
    using join_words_chars [OF p] 3(5) by auto
  have "pad @ join_with ''; '' (map (join_with '' '') (p # q # qs))
          = (pad @ join_with '' '' p) @ CHR '';'' # ('' '' @ join_with ''; '' (map (join_with '' '') (q # qs)))"
    by simp
  then have "split_where (\<lambda>c. c = CHR '';'') (pad @ join_with ''; '' (map (join_with '' '') (p # q # qs)))
          = (pad @ join_with '' '' p)
            # split_where (\<lambda>c. c = CHR '';'') ('' '' @ join_with ''; '' (map (join_with '' '') (q # qs)))"
    using split_where_block [OF nc, of "CHR '';''"] by simp
  moreover have "split_words (pad @ join_with '' '' p) = p"
    using 3(5) split_words_join [OF p] by (auto simp add: split_words_space)
  ultimately show ?case
    using 3(2) [OF rest, of "'' ''"] by simp
qed

lemma parse_authors_commas:
  assumes "list_all name_group groups" and "cw = ''and'' \<or> cw = ''&''"
  shows "parse_authors (join_with '', '' (map (render_group cw) groups))
           = take 15 (map name_creator (concat groups))"
proof (cases "groups = []")
  case True
  then show ?thesis by (simp add: parse_authors_def name_tokens_def split_words_def)
next
  case False
  have "\<forall>c\<in>set (join_with '', '' (map (render_group cw) groups)). c \<noteq> CHR '';''"
  proof
    fix c assume "c \<in> set (join_with '', '' (map (render_group cw) groups))"
    with set_join_with [of "'', ''" "map (render_group cw) groups"]
    have "c \<in> set '', '' \<or> (\<exists>g\<in>set groups. c \<in> set (render_group cw g))" by auto
    then show "c \<noteq> CHR '';''"
    proof
      assume "c \<in> set '', ''" then show ?thesis by auto
    next
      assume "\<exists>g\<in>set groups. c \<in> set (render_group cw g)"
      then obtain g where "g \<in> set groups" "c \<in> set (render_group cw g)" by blast
      moreover from this assms(1) have "name_group g" by (simp add: list_all_iff)
      ultimately show ?thesis using render_group_chars [OF _ assms(2)] by blast
    qed
  qed
  then have ns: "CHR '';'' \<notin> set (join_with '', '' (map (render_group cw) groups))" by blast
  have "name_tokens (join_with '', '' (map (render_group cw) groups)) = concat groups"
    using comma_pieces [OF assms(1) False assms(2), of "[]"] ns by (simp add: name_tokens_def)
  moreover have "filter (\<lambda>ws. ws \<noteq> []) (concat groups) = concat groups"
    using assms(1) by (auto simp add: filter_id_conv name_group_def person_def list_all_iff)
  ultimately show ?thesis by (simp add: parse_authors_def)
qed

lemma parse_authors_semicolons:
  assumes "list_all person ps"
  shows "parse_authors (join_with ''; '' (map (join_with '' '') ps)) = take 15 (map name_creator ps)"
proof -
  have keep: "filter (\<lambda>ws. ws \<noteq> []) ps = ps"
    using assms by (auto simp add: filter_id_conv person_def list_all_iff)
  consider "ps = []" | p where "ps = [p]" | p q qs where "ps = p # q # qs"
    by (cases ps; cases "tl ps") auto
  then show ?thesis
  proof cases
    case 1
    then show ?thesis by (simp add: parse_authors_def name_tokens_def split_words_def)
  next
    case 2
    with assms have "list_all name_group [[p]]" by (simp add: name_group_def)
    from parse_authors_commas [OF this, of "''and''"] 2 show ?thesis
      by (simp add: render_group_def)
  next
    case 3
    then have "CHR '';'' \<in> set (join_with ''; '' (map (join_with '' '') ps))" by simp
    moreover have "ps \<noteq> []" using 3 by simp
    ultimately have "name_tokens (join_with ''; '' (map (join_with '' '') ps)) = ps"
      using semicolon_pieces [OF assms, of "[]"] by (simp add: name_tokens_def)
    with keep show ?thesis by (simp add: parse_authors_def)
  qed
qed

lemma name_creator_shape:
  assumes "ws \<noteq> []"
  shows "name_creator ws = creator_ref (join_with '' '' (butlast ws)) (last ws)"
proof (cases "length ws = 1")
  case True
  then obtain w where "ws = [w]" by (cases ws) auto
  then show ?thesis by (simp add: name_creator_def)
next
  case False
  then show ?thesis by (simp add: name_creator_def)
qed

lemma semicolon_word_plain: "semicolon_word w \<Longrightarrow> plain_word w"
  by (simp add: semicolon_word_def plain_word_def list_all_iff)

lemma semicolon_person_chars:
  assumes "semicolon_person ws" and "c \<in> set (join_with '' '' ws)"
  shows "c \<noteq> CHR '';''"
proof -
  from assms(2) set_join_with [of "'' ''" ws]
  have "c \<in> set '' '' \<or> (\<exists>w\<in>set ws. c \<in> set w)" by auto
  then show ?thesis
    using assms(1) by (auto simp add: semicolon_person_def semicolon_word_def list_all_iff)
qed

lemma semicolon_person_words:
  assumes "semicolon_person ws" and "pad = [] \<or> pad = '' ''"
  shows "split_words (pad @ join_with '' '' ws) = ws"
proof -
  have "list_all plain_word ws"
    using assms(1) by (auto simp add: semicolon_person_def list_all_iff dest: semicolon_word_plain)
  then have "split_words (join_with '' '' ws) = ws" by (rule split_words_plain)
  with assms(2) show ?thesis by (auto simp add: split_words_space)
qed

lemma semicolon_list_pieces:
  assumes "list_all semicolon_person ps" and "ps \<noteq> []" and "pad = [] \<or> pad = '' ''"
  shows "map split_words (split_where (\<lambda>c. c = CHR '';'')
                            (pad @ join_with ''; '' (map (join_with '' '') ps))) = ps"
  using assms
proof (induction ps arbitrary: pad rule: induct_list012)
  case 1
  then show ?case by simp
next
  case (2 p)
  then have p: "semicolon_person p" by simp
  have "\<forall>c\<in>set (pad @ join_with '' '' p). \<not> c = CHR '';''"
    using semicolon_person_chars [OF p] 2(3) by auto
  then have "split_where (\<lambda>c. c = CHR '';'') (pad @ join_with '' '' p) = [pad @ join_with '' '' p]"
    by (rule split_where_none)
  then show ?case using semicolon_person_words [OF p 2(3)] by simp
next
  case (3 p q qs)
  from 3(3) have p: "semicolon_person p" and rest: "list_all semicolon_person (q # qs)" by simp_all
  have nc: "\<forall>c\<in>set (pad @ join_with '' '' p). \<not> c = CHR '';''"
    using semicolon_person_chars [OF p] 3(5) by auto
  have "pad @ join_with ''; '' (map (join_with '' '') (p # q # qs))
          = (pad @ join_with '' '' p) @ CHR '';'' # ('' '' @ join_with ''; '' (map (join_with '' '') (q # qs)))"
    by simp
  then have "split_where (\<lambda>c. c = CHR '';'') (pad @ join_with ''; '' (map (join_with '' '') (p # q # qs)))
          = (pad @ join_with '' '' p)
            # split_where (\<lambda>c. c = CHR '';'') ('' '' @ join_with ''; '' (map (join_with '' '') (q # qs)))"
    using split_where_block [OF nc, of "CHR '';''"] by simp
  then show ?case
    using semicolon_person_words [OF p 3(5)] 3(2) [OF rest, of "'' ''"] by simp
qed

lemma parse_authors_semicolon_list:
  assumes "list_all semicolon_person ps" and "2 \<le> length ps"
  shows "parse_authors (join_with ''; '' (map (join_with '' '') ps)) = take 15 (map name_creator ps)"
proof -
  have keep: "filter (\<lambda>ws. ws \<noteq> []) ps = ps"
    using assms(1) by (auto simp add: filter_id_conv semicolon_person_def list_all_iff)
  from assms(2) obtain p q qs where ps: "ps = p # q # qs"
    by (cases ps; cases "tl ps") auto
  then have "CHR '';'' \<in> set (join_with ''; '' (map (join_with '' '') ps))" by simp
  moreover have "ps \<noteq> []" using ps by simp
  ultimately have "name_tokens (join_with ''; '' (map (join_with '' '') ps)) = ps"
    using semicolon_list_pieces [OF assms(1), of "[]"] by (simp add: name_tokens_def)
  with keep show ?thesis by (simp add: parse_authors_def)
qed

lemma split_where_snoc:
  assumes "P s"
  shows "split_where P (xs @ [s]) = split_where P xs @ [[]]"
proof (induction xs)
  case Nil
  with assms show ?case by simp
next
  case (Cons x xs)
  obtain g gs where "split_where P xs = g # gs"
    using split_where_nonempty [of P xs] by (cases "split_where P xs") auto
  with Cons show ?case by simp
qed

lemma parse_authors_trailing_semicolon:
  assumes "CHR '';'' \<in> set s"
  shows "parse_authors (s @ '';'') = parse_authors s"
  using assms
  by (simp add: parse_authors_def name_tokens_def split_where_snoc split_words_def)

lemma parse_authors_trailing_comma:
  assumes "CHR '';'' \<notin> set s"
  shows "parse_authors (s @ '','') = parse_authors s"
  using assms
  by (simp add: parse_authors_def name_tokens_def split_where_snoc split_words_def)

text \<open>
  C8. An authors string that is a list of names is parsed into these names, in their
  order, at most 15 of them. In a list with \<open>;\<close> between two or more names only the
  semicolons separate: a comma, \<open>and\<close> or \<open>&\<close> inside a name stays in it. In a list
  without \<open>;\<close> the commas separate groups of names and \<open>and\<close> or \<open>&\<close> separate the
  names of a group. A trailing separator adds nothing. Each name gives a creator whose
  last name is its last word and whose first name is the words before it, joined by
  spaces, which is empty for a name of one word. \<open>Jane A. Doe, John Smith\<close> gives the two
  creators \<open>Jane A.\<close> \<open>Doe\<close> and \<open>John\<close> \<open>Smith\<close>.
\<close>

theorem author_string_parsed:
  assumes "list_all name_group groups" and "cw = ''and'' \<or> cw = ''&''"
    and "list_all semicolon_person ps" and "2 \<le> length ps"
  shows "parse_authors (join_with '', '' (map (render_group cw) groups))
           = take 15 (map name_creator (concat groups))
       \<and> parse_authors (join_with ''; '' (map (join_with '' '') ps)) = take 15 (map name_creator ps)
       \<and> (\<forall>s. CHR '';'' \<in> set s \<longrightarrow> parse_authors (s @ '';'') = parse_authors s)
       \<and> (\<forall>s. CHR '';'' \<notin> set s \<longrightarrow> parse_authors (s @ '','') = parse_authors s)
       \<and> (\<forall>ws. ws \<noteq> [] \<longrightarrow>
             name_creator ws = creator_ref (join_with '' '' (butlast ws)) (last ws))
       \<and> (\<forall>w. name_creator [w] = creator_ref '''' w)
       \<and> parse_authors ''Jane A. Doe, John Smith''
           = [creator_ref ''Jane A.'' ''Doe'', creator_ref ''John'' ''Smith'']
       \<and> parse_authors ''Doe, Jane; Smith, John''
           = [creator_ref ''Doe,'' ''Jane'', creator_ref ''Smith,'' ''John'']
       \<and> (\<forall>raw s. \<not> truthy (py_get raw ''creators'') \<longrightarrow> py_get raw ''authors'' = PStr s \<longrightarrow>
             build_creators raw = parse_authors s)"
proof -
  have e: "parse_authors ''Jane A. Doe, John Smith''
           = [creator_ref ''Jane A.'' ''Doe'', creator_ref ''John'' ''Smith'']"
    by code_simp
  have f: "parse_authors ''Doe, Jane; Smith, John''
           = [creator_ref ''Doe,'' ''Jane'', creator_ref ''Smith,'' ''John'']"
    by code_simp
  have n: "parse_authors [] = []"
    by (simp add: parse_authors_def name_tokens_def split_words_def)
  have b: "\<forall>raw s. \<not> truthy (py_get raw ''creators'') \<longrightarrow> py_get raw ''authors'' = PStr s \<longrightarrow>
             build_creators raw = parse_authors s"
    by (simp add: build_creators_def n)
  show ?thesis
    using parse_authors_commas [OF assms(1,2)] parse_authors_semicolon_list [OF assms(3,4)]
      parse_authors_trailing_semicolon parse_authors_trailing_comma
      name_creator_shape e f b
    by (simp add: name_creator_def)
qed

theorem author_string_parsed_witness:
  "list_all name_group [[[''Ada'', ''M.'', ''Lovelace'']], [[''Alan'', ''Turing''], [''Plato'']]]
   \<and> parse_authors ''Ada M. Lovelace, Alan Turing and Plato''
       = [creator_ref ''Ada M.'' ''Lovelace'', creator_ref ''Alan'' ''Turing'', creator_ref [] ''Plato'']
   \<and> list_all semicolon_person [[''Doe,'', ''Jane''], [''Smith'', ''and'', ''Sons,'', ''Ltd'']]
   \<and> parse_authors ''Doe, Jane; Smith and Sons, Ltd''
       = [creator_ref ''Doe,'' ''Jane'', creator_ref ''Smith and Sons,'' ''Ltd'']"
proof -
  have g: "list_all name_group [[[''Ada'', ''M.'', ''Lovelace'']], [[''Alan'', ''Turing''], [''Plato'']]]"
    by (simp add: name_group_def person_def name_word_def re_s_def)
  have p: "list_all semicolon_person [[''Doe,'', ''Jane''], [''Smith'', ''and'', ''Sons,'', ''Ltd'']]"
    by (simp add: semicolon_person_def semicolon_word_def re_s_def)
  have l: "2 \<le> length [[''Doe,'', ''Jane''], [''Smith'', ''and'', ''Sons,'', ''Ltd'']]" by simp
  show ?thesis
    using g p
      author_string_parsed [OF g _ p l, of "''and''"]
    by (simp add: render_group_def name_creator_def)
qed

end
